theory Spec2Isabelle
  imports Main "HOL-Library.Word" "HOL-Library.Signed_Division"
begin

unbundle bit_operations_syntax

section \<open>Machine integers, errors and panics\<close>

text \<open>
  Go's \<open>int64\<close> is a 64-bit word read in two's complement: \<open>+\<close> and \<open>*\<close> wrap,
  comparisons are the signed ones (\<open><s\<close>, \<open>\<le>s\<close>), \<open><<\<close> is \<open>push_bit\<close> and \<open>>>\<close>
  is the arithmetic shift \<open>signed_drop_bit\<close>. Division and remainder truncate
  towards zero.
\<close>

type_synonym int64 = "64 word"

type_synonym byte = "8 word"

text \<open>\<open>type ID int64\<close>\<close>

type_synonym ID = int64

definition go_div :: "int64 \<Rightarrow> int64 \<Rightarrow> int64" where
  "go_div a b = word_of_int (sint a sdiv sint b)"

definition go_mod :: "int64 \<Rightarrow> int64 \<Rightarrow> int64" where
  "go_mod a b = word_of_int (sint a smod sint b)"

text \<open>\<open>errors.go\<close>: the error type and its four values.\<close>

record SnowflakeError =
  Code :: int
  Message :: string

definition ErrorInvalid :: SnowflakeError where
  "ErrorInvalid = \<lparr>Code = 0x0, Message = ''invalid id''\<rparr>"

definition ErrorInvalidByte :: SnowflakeError where
  "ErrorInvalidByte = \<lparr>Code = 0x1, Message = ''invalid byte detected''\<rparr>"

definition ErrorInvalidJson :: SnowflakeError where
  "ErrorInvalidJson = \<lparr>Code = 0x2, Message = ''invalid json format''\<rparr>"

definition ErrorEncodeMapLength :: SnowflakeError where
  "ErrorEncodeMapLength = \<lparr>Code = 0x100, Message = ''encode map is not long enough''\<rparr>"

text \<open>
  What stops a call without a return value: a Go panic (an explicit \<open>panic(...)\<close> or an
  index out of range), or, in the model of \<open>Generate\<close>, a busy-wait that is still
  spinning when the recorded clock readings end.
\<close>

datatype fault = Panic string | IndexOutOfRange | OutOfSamples

text \<open>Reading \<open>xs[i]\<close> and writing \<open>xs[i] = v\<close> with Go's bounds check.\<close>

definition index_at :: "'a list \<Rightarrow> int \<Rightarrow> fault + 'a" where
  "index_at xs i = (if 0 \<le> i \<and> i < int (length xs) then Inr (xs ! nat i) else Inl IndexOutOfRange)"

definition store_at :: "'a list \<Rightarrow> int \<Rightarrow> 'a \<Rightarrow> fault + 'a list" where
  "store_at xs i v = (if 0 \<le> i \<and> i < int (length xs) then Inr (xs[nat i := v]) else Inl IndexOutOfRange)"

section \<open>Alphabet and decode table\<close>

definition Invalid :: ID where
  "Invalid = - 1"

definition alphabet :: string where
  "alphabet = ''g82FcYyTeUr0vsn1Jb9NmLMPuHGhVztRp4f3jDk5Zd6ECaw7AWQKXx''"

text \<open>
  \<open>initDecodeMap\<close>: every entry of the 256-byte table is set to \<open>0xFF\<close>, then the entry
  of each alphabet character is set to the character's position.
\<close>

definition initDecodeMap :: "byte list \<Rightarrow> byte list" where
  "initDecodeMap dm =
     fold (\<lambda>i m. m[of_char (alphabet ! i) := of_nat i]) [0..<length alphabet]
       (fold (\<lambda>i m. m[i := 0xFF]) [0..<length dm] dm)"

definition decodeMap :: "byte list" where
  "decodeMap = initDecodeMap (replicate 256 0)"

section \<open>Codec\<close>

text \<open>
  The loop of \<open>base54\<close>: \<open>for id >= 54 { b[i] = alphabet[id%54]; id /= 54; i-- }\<close>.
\<close>

function base54_loop :: "ID \<Rightarrow> char list \<Rightarrow> int \<Rightarrow> fault + (ID \<times> char list \<times> int)" where
  "base54_loop idv b i =
     (if 54 \<le>s idv then
        (case index_at alphabet (sint (go_mod idv 54)) of
           Inl f \<Rightarrow> Inl f
         | Inr c \<Rightarrow>
            (case store_at b i c of
               Inl f \<Rightarrow> Inl f
             | Inr b' \<Rightarrow> base54_loop (go_div idv 54) b' (i - 1)))
      else Inr (idv, b, i))"
  by pat_completeness auto

termination base54_loop
proof (relation "measure (\<lambda>(idv, b, i). nat (sint idv))")
  show "wf (measure (\<lambda>(idv, b, i). nat (sint idv)))" by simp
next
  fix idv :: ID and b :: "char list" and i :: int and c :: char and b' :: "char list"
  assume "54 \<le>s idv"
  then have ge: "54 \<le> sint idv" by (simp add: word_sle_eq)
  have lt: "sint idv < 2 ^ 63" using sint_lt [of idv] by simp
  have q: "sint idv sdiv 54 = sint idv div 54"
    using ge by (simp add: signed_divide_int_def sgn_if)
  have less: "sint idv div 54 < sint idv" using ge by (simp add: int_div_less_self)
  have "0 \<le> sint idv div 54" using ge by (simp add: pos_imp_zdiv_nonneg_iff)
  then have "sint (go_div idv 54) = sint idv div 54"
    using q less lt by (simp add: go_div_def sint_sbintrunc' signed_take_bit_int_eq_self)
  then show "((go_div idv 54, b', i - 1), (idv, b, i)) \<in> measure (\<lambda>(idv, b, i). nat (sint idv))"
    using ge less by simp
qed

declare base54_loop.simps [simp del]

text \<open>
  \<open>base54\<close>: the result pair \<open>(string, error)\<close> of the Go method, or the panic of an
  index out of range.
\<close>

definition base54 :: "ID \<Rightarrow> fault + (string \<times> SnowflakeError option)" where
  "base54 idv =
     (if idv <s 0 then Inr ('''', Some ErrorInvalid)
      else if idv <s 54 then
        (case index_at alphabet (sint idv) of
           Inl f \<Rightarrow> Inl f
         | Inr c \<Rightarrow> Inr ([c], None))
      else
        (case base54_loop idv (replicate 11 (CHR 0x00)) 10 of
           Inl f \<Rightarrow> Inl f
         | Inr (idv', b, i) \<Rightarrow>
            (case index_at alphabet (sint idv') of
               Inl f \<Rightarrow> Inl f
             | Inr c \<Rightarrow>
                (case store_at b i c of
                   Inl f \<Rightarrow> Inl f
                 | Inr b' \<Rightarrow>
                    if 0 \<le> i \<and> i \<le> int (length b') then Inr (drop (nat i) b', None)
                    else Inl IndexOutOfRange))))"

text \<open>
  The loop of \<open>decode54\<close>: an early return on a byte the table marks invalid, otherwise
  one Horner step in wrapping 64-bit arithmetic.
\<close>

fun decode54_loop :: "char list \<Rightarrow> int64 \<Rightarrow> (ID \<times> SnowflakeError option) + int64" where
  "decode54_loop [] idv = Inr idv"
| "decode54_loop (c # cs) idv =
     (if decodeMap ! of_char c = 0xFF then Inl (Invalid, Some ErrorInvalidByte)
      else decode54_loop cs (idv * 54 + ucast (decodeMap ! of_char c)))"

definition decode54 :: "char list \<Rightarrow> ID \<times> SnowflakeError option" where
  "decode54 b =
     (case decode54_loop b 0 of
        Inl r \<Rightarrow> r
      | Inr idv \<Rightarrow> if idv <s 0 then (Invalid, Some ErrorInvalid) else (idv, None))"

text \<open>\<open>Parse\<close>: the bytes of the input string go to \<open>decode54\<close>.\<close>

definition Parse :: "string \<Rightarrow> ID \<times> SnowflakeError option" where
  "Parse input = decode54 input"

text \<open>
  \<open>String\<close>: the encoding, or the empty string when \<open>base54\<close> reports an error.
\<close>

definition String :: "ID \<Rightarrow> fault + string" where
  "String idv =
     (case base54 idv of
        Inl f \<Rightarrow> Inl f
      | Inr (encoded, err) \<Rightarrow> if err \<noteq> None then Inr [] else Inr encoded)"

text \<open>
  \<open>MarshalJSON\<close> hands \<open>id.String()\<close> to \<open>json.Marshal\<close> of Go's standard library and
  returns its result unchanged. The library function is the parameter \<open>marshal\<close>.
  On a string of printable ASCII characters other than the double quote, the
  backslash, \<open><\<close>, \<open>>\<close> and \<open>&\<close> the library needs no escape sequence: it returns the
  string between two double quotes and a nil error, which is \<open>json_quote\<close>.
\<close>

definition MarshalJSON :: "(string \<Rightarrow> string \<times> 'e option) \<Rightarrow> ID \<Rightarrow> fault + (string \<times> 'e option)" where
  "MarshalJSON marshal idv =
     (case String idv of
        Inl f \<Rightarrow> Inl f
      | Inr s \<Rightarrow> Inr (marshal s))"

definition json_plain :: "char \<Rightarrow> bool" where
  "json_plain c \<longleftrightarrow>
     (0x20::nat) \<le> of_char c \<and> of_char c < (0x7F::nat) \<and>
     c \<notin> {CHR 0x22, CHR 0x5C, CHR ''<'', CHR ''>'', CHR ''&''}"

definition json_quote :: "string \<Rightarrow> string \<times> 'e option" where
  "json_quote s = ([CHR 0x22] @ s @ [CHR 0x22], None)"

definition json_Marshal_like :: "(string \<Rightarrow> string \<times> 'e option) \<Rightarrow> bool" where
  "json_Marshal_like marshal \<longleftrightarrow> (\<forall>s. list_all json_plain s \<longrightarrow> marshal s = json_quote s)"

section \<open>Region resolver\<close>

definition continents :: "string list list" where
  "continents =
     [[''bom'', ''hkg'', ''nrt'', ''sin''],
      [''jnb''],
      [''atl'', ''bos'', ''den'', ''dfw'', ''ewr'', ''iad'', ''lax'', ''mia'', ''ord'', ''phx'',
       ''sea'', ''sjc'', ''yul'', ''yyz''],
      [''bog'', ''eze'', ''gdl'', ''gig'', ''gru'', ''qro'', ''scl''],
      [],
      [''ams'', ''arn'', ''cdg'', ''fra'', ''lhr'', ''mad'', ''otp'', ''waw''],
      [''syd'']]"

text \<open>
  The outer loop of \<open>getContinentCode\<close> over the rows from index \<open>i\<close> on; the inner loop
  finds \<open>region\<close> in a row exactly when it is a member of the row.
\<close>

fun continentFrom :: "string list list \<Rightarrow> int64 \<Rightarrow> string \<Rightarrow> int64" where
  "continentFrom [] i region = - 1"
| "continentFrom (row # rows) i region =
     (if region \<in> set row then i else continentFrom rows (i + 1) region)"

definition getContinentCode :: "string \<Rightarrow> int64" where
  "getContinentCode region = continentFrom continents 0 region"

section \<open>Generator\<close>

definition Epoch :: int64 where
  "Epoch = 1577836801000"

definition bitsTimestamp :: nat where
  "bitsTimestamp = 42"

definition bitsMachineID :: nat where
  "bitsMachineID = 9"

definition bitsMachineSequence :: nat where
  "bitsMachineSequence = 12"

text \<open>
  \<open>init\<close> sets the two masks to \<open>int64(math.Pow(2, bits)) - 1\<close>; the powers of two
  involved are exact.
\<close>

definition bitMapMachineId :: int64 where
  "bitMapMachineId = 2 ^ bitsMachineID - 1"

definition bitMapMachineSequence :: int64 where
  "bitMapMachineSequence = 2 ^ bitsMachineSequence - 1"

text \<open>The package variables that \<open>SetMachineId\<close> and \<open>Generate\<close> write.\<close>

record generator =
  machineId :: int64
  machineSequence :: int64
  previous :: int64

definition initial :: generator where
  "initial = \<lparr>machineId = 0, machineSequence = 0, previous = 0\<rparr>"

definition SetMachineId :: "string \<Rightarrow> int64 \<Rightarrow> generator \<Rightarrow> fault + generator" where
  "SetMachineId region index g =
     (let continent = getContinentCode region;
          maxMachineNumber = (2 :: int64) ^ (bitsMachineID - 3)
      in if continent <s 0 \<or> index <s 0 \<or> maxMachineNumber \<le>s index
         then Inl (Panic ''unable to determine proper machine id'')
         else Inr (g\<lparr>machineId :=
                 push_bit (bitsMachineID - 3) (continent AND 0b111) OR (index AND (maxMachineNumber - 1))\<rparr>))"

text \<open>
  The clock is the list of the values that the successive calls of
  \<open>time.Since(epoch).Milliseconds()\<close> return; each call takes the head of the list.
  The busy-wait \<open>for now <= previous { now = ... }\<close> reads on until a value is larger;
  if the list ends first, it has not left the loop.
\<close>

fun spin :: "int64 \<Rightarrow> int64 \<Rightarrow> int64 list \<Rightarrow> fault + (int64 \<times> int64 list)" where
  "spin now prev [] = (if now \<le>s prev then Inl OutOfSamples else Inr (now, []))"
| "spin now prev (t # clock) = (if now \<le>s prev then spin t prev clock else Inr (now, t # clock))"

text \<open>
  The value that \<open>Generate\<close> returns:
  \<open>now<<(bitsMachineID+bitsMachineSequence) | (machineId << bitsMachineSequence) | machineSequence\<close>.
\<close>

definition snowflake :: "int64 \<Rightarrow> int64 \<Rightarrow> int64 \<Rightarrow> ID" where
  "snowflake now mid mseq =
     push_bit (bitsMachineID + bitsMachineSequence) now OR push_bit bitsMachineSequence mid OR mseq"

text \<open>The end of \<open>Generate\<close>, from \<open>// Increment machine sequence\<close> on.\<close>

definition assemble :: "generator \<Rightarrow> int64 \<Rightarrow> int64 list \<Rightarrow> ID \<times> generator \<times> int64 list" where
  "assemble g now clock =
     (let g1 = g\<lparr>machineSequence := (machineSequence g + 1) AND bitMapMachineSequence\<rparr>;
          g2 = g1\<lparr>previous := now\<rparr>
      in (snowflake now (machineId g2) (machineSequence g2), g2, clock))"

definition Generate :: "generator \<Rightarrow> int64 list \<Rightarrow> fault + (ID \<times> generator \<times> int64 list)" where
  "Generate g clock =
     (case clock of
        [] \<Rightarrow> Inl OutOfSamples
      | now # clock1 \<Rightarrow>
          if now = previous g \<and> machineSequence g = bitMapMachineSequence then
            (case spin now (previous g) clock1 of
               Inl f \<Rightarrow> Inl f
             | Inr (now', clock2) \<Rightarrow> Inr (assemble g now' clock2))
          else if previous g <s now then
            Inr (assemble (g\<lparr>machineSequence := - 1\<rparr>) now clock1)
          else if now <s previous g then
            Inl (Panic ''attempted to generate snowflake id of the past'')
          else Inr (assemble g now clock1))"


text \<open>The accessors.\<close>

definition Time :: "ID \<Rightarrow> int64" where
  "Time idv = signed_drop_bit (bitsMachineID + bitsMachineSequence) idv + Epoch"

definition MachineId :: "ID \<Rightarrow> int64" where
  "MachineId idv = signed_drop_bit bitsMachineSequence idv AND bitMapMachineId"

definition MachineSequence :: "ID \<Rightarrow> int64" where
  "MachineSequence idv = idv AND bitMapMachineSequence"

section \<open>The numeric value of a string\<close>

text \<open>
  What the specification calls the numeric value of a string over the alphabet: the
  base-54 number whose digits are the alphabet positions of the characters, as an
  unbounded integer. It is the yardstick for the codec and is not part of the program.
\<close>

fun position :: "'a \<Rightarrow> 'a list \<Rightarrow> nat" where
  "position c [] = 0"
| "position c (x # xs) = (if x = c then 0 else Suc (position c xs))"

definition value54 :: "string \<Rightarrow> int" where
  "value54 s = foldl (\<lambda>a c. a * 54 + int (position c alphabet)) 0 s"

text \<open>
  The shortest base-54 numeral of a number, in the specification's words: a number below
  54 is the single character at that alphabet position; otherwise the remainder modulo
  54 gives the last symbol and the quotient by 54 the symbols before it.
\<close>

function numeral54 :: "nat \<Rightarrow> string" where
  "numeral54 n =
     (if n < 54 then [alphabet ! n] else numeral54 (n div 54) @ [alphabet ! (n mod 54)])"
  by pat_completeness auto

termination numeral54
  by (relation "measure (\<lambda>n. n)") auto

declare numeral54.simps [simp del]

text \<open>
  A string is a numeral without redundant leading symbol when it is not empty, all its
  characters are in the alphabet, and it is one character long or does not start with the
  zero symbol, the first character of the alphabet.
\<close>

definition canonical54 :: "string \<Rightarrow> bool" where
  "canonical54 s \<longleftrightarrow> s \<noteq> [] \<and> set s \<subseteq> set alphabet \<and> (length s = 1 \<or> hd s \<noteq> alphabet ! 0)"

section \<open>States of the generator that a program can reach\<close>

text \<open>
  The package variables start as \<open>initial\<close>; only \<open>SetMachineId\<close> and \<open>Generate\<close> write
  them, whatever the clock reads.
\<close>

inductive reachable :: "generator \<Rightarrow> bool" where
  reachable_initial: "reachable initial"
| reachable_SetMachineId:
    "reachable g \<Longrightarrow> SetMachineId region index g = Inr g' \<Longrightarrow> reachable g'"
| reachable_Generate:
    "reachable g \<Longrightarrow> Generate g clock = Inr (x, g', clock') \<Longrightarrow> reachable g'"

section \<open>Arithmetic of the codec\<close>

lemma sint_of_int64:
  "- (2 ^ 63) \<le> k \<Longrightarrow> k < 2 ^ 63 \<Longrightarrow> sint (word_of_int k :: int64) = k"
  by (simp add: sint_sbintrunc' signed_take_bit_int_eq_self)

lemma go_div_54: "0 \<le>s a \<Longrightarrow> sint (go_div a 54) = sint a div 54"
proof -
  assume "0 \<le>s a"
  then have nn: "0 \<le> sint a" by (simp add: word_sle_eq)
  have lt: "sint a < 2 ^ 63" using sint_lt [of a] by simp
  have "sint a div 54 \<le> sint a" using nn by (simp add: int_div_le_self)
  moreover have "0 \<le> sint a div 54" using nn by (simp add: pos_imp_zdiv_nonneg_iff)
  moreover have "sint a sdiv 54 = sint a div 54"
    using nn by (simp add: signed_divide_int_def sgn_if)
  ultimately show ?thesis
    using lt by (simp add: go_div_def sint_of_int64)
qed

lemma go_mod_54: "0 \<le>s a \<Longrightarrow> sint (go_mod a 54) = sint a mod 54"
proof -
  assume "0 \<le>s a"
  then have nn: "0 \<le> sint a" by (simp add: word_sle_eq)
  have "sint a smod 54 = sint a mod 54"
    using nn by (simp add: signed_modulo_int_def signed_divide_int_def sgn_if minus_div_mult_eq_mod)
  moreover have "- (2 ^ 63) \<le> sint a mod 54" "sint a mod 54 < 2 ^ 63"
    using pos_mod_sign [of 54 "sint a"] pos_mod_bound [of 54 "sint a"] by auto
  ultimately show ?thesis
    by (simp add: go_mod_def sint_of_int64)
qed

lemma alphabet_length: "length alphabet = 54"
  by (simp add: alphabet_def)

lemma alphabet_distinct: "distinct alphabet"
  by (simp add: alphabet_def)

lemma position_less: "c \<in> set xs \<Longrightarrow> position c xs < length xs"
  by (induction xs) auto

lemma position_nth: "c \<in> set xs \<Longrightarrow> xs ! position c xs = c"
  by (induction xs) auto

lemma position_of_nth: "distinct xs \<Longrightarrow> i < length xs \<Longrightarrow> position (xs ! i) xs = i"
proof (induction xs arbitrary: i)
  case Nil
  then show ?case by simp
next
  case (Cons x xs)
  show ?case
  proof (cases i)
    case 0
    then show ?thesis by simp
  next
    case (Suc j)
    with Cons.prems have "xs ! j \<in> set xs" "x \<notin> set xs" by auto
    then have "x \<noteq> xs ! j" by auto
    with Cons Suc show ?thesis by simp
  qed
qed

lemma fill_length: "length (fold (\<lambda>i m. m[i := v]) is m) = length m"
  by (induction "is" arbitrary: m) auto

lemma fill_nth:
  "k < length m \<Longrightarrow> fold (\<lambda>i m. m[i := v]) is m ! k = (if k \<in> set is then v else m ! k)"
  by (induction "is" arbitrary: m) (auto simp: nth_list_update)

lemma place_length: "length (fold (\<lambda>i m. m[f i := g i]) is m) = length m"
  by (induction "is" arbitrary: m) auto

lemma place_nth_other:
  "k \<notin> f ` set is \<Longrightarrow> fold (\<lambda>i m. m[f i := g i]) is m ! k = m ! k"
  by (induction "is" arbitrary: m) auto

lemma place_nth_hit:
  "distinct (map f is) \<Longrightarrow> i \<in> set is \<Longrightarrow> f i < length m \<Longrightarrow>
     fold (\<lambda>i m. m[f i := g i]) is m ! f i = g i"
proof (induction "is" arbitrary: m)
  case Nil
  then show ?case by simp
next
  case (Cons j js)
  show ?case
  proof (cases "i = j")
    case True
    with Cons.prems have "f i \<notin> f ` set js" by auto
    then have "fold (\<lambda>i m. m[f i := g i]) js (m[f j := g j]) ! f i = m[f j := g j] ! f i"
      by (rule place_nth_other)
    with True Cons.prems show ?thesis by simp
  next
    case False
    with Cons.prems have "i \<in> set js" "distinct (map f js)" by auto
    with Cons.IH [of "m[f j := g j]"] Cons.prems show ?thesis by simp
  qed
qed

lemma decodeMap_length: "length decodeMap = 256"
  by (simp add: decodeMap_def initDecodeMap_def place_length fill_length)

lemma of_char_less_256: "(of_char c :: nat) < 256"
  by (metis of_char_mod_256 mod_less_divisor zero_less_numeral)

lemma decodeMap_outside:
  assumes "c \<notin> set alphabet"
  shows "decodeMap ! of_char c = 0xFF"
proof -
  have "(of_char c :: nat) \<notin> (\<lambda>i. of_char (alphabet ! i)) ` set [0..<length alphabet]"
  proof
    assume "(of_char c :: nat) \<in> (\<lambda>i. of_char (alphabet ! i)) ` set [0..<length alphabet]"
    then obtain i where "i < length alphabet" "(of_char c :: nat) = of_char (alphabet ! i)" by auto
    then have "c = alphabet ! i" "alphabet ! i \<in> set alphabet" by (auto simp: of_char_eq_iff)
    with assms show False by simp
  qed
  then have "decodeMap ! of_char c =
      fold (\<lambda>i m. m[i := 0xFF]) [0..<256] (replicate 256 0) ! of_char c"
    unfolding decodeMap_def initDecodeMap_def by (simp add: place_nth_other)
  also have "\<dots> = 0xFF"
    using of_char_less_256 [of c] by (subst fill_nth) auto
  finally show ?thesis .
qed

lemma decodeMap_inside:
  assumes "c \<in> set alphabet"
  shows "decodeMap ! of_char c = of_nat (position c alphabet)"
proof -
  let ?f = "\<lambda>i. (of_char (alphabet ! i) :: nat)"
  let ?i = "position c alphabet"
  have i: "?i < length alphabet" "alphabet ! ?i = c"
    using assms by (simp_all add: position_less position_nth)
  have "map ?f [0..<length alphabet] = map of_char alphabet"
    by (rule nth_equalityI) auto
  then have d: "distinct (map ?f [0..<length alphabet])"
    using alphabet_distinct by (simp add: distinct_map inj_on_def)
  have "fold (\<lambda>i m. m[?f i := of_nat i]) [0..<length alphabet]
          (fold (\<lambda>i m. m[i := 0xFF]) [0..<length (replicate 256 (0::byte))] (replicate 256 0)) ! ?f ?i = of_nat ?i"
    using d i(1) of_char_less_256 by (subst place_nth_hit) (auto simp: fill_length)
  then show ?thesis
    using i(2) by (simp add: decodeMap_def initDecodeMap_def)
qed

section \<open>The decoder on strings over the alphabet\<close>

lemma position_alphabet_less: "c \<in> set alphabet \<Longrightarrow> position c alphabet < 54"
  using position_less [of c alphabet] by (simp add: alphabet_length)

lemma byte_of_position:
  assumes "c \<in> set alphabet"
  shows "decodeMap ! of_char c \<noteq> 0xFF"
    and "(ucast (decodeMap ! of_char c) :: int64) = word_of_int (int (position c alphabet))"
proof -
  let ?p = "position c alphabet"
  have p: "?p < 54" using assms by (rule position_alphabet_less)
  have u: "unat (of_nat ?p :: byte) = ?p"
    using p by (simp add: unat_of_nat)
  show "decodeMap ! of_char c \<noteq> 0xFF"
  proof
    assume "decodeMap ! of_char c = 0xFF"
    then have "unat (of_nat ?p :: byte) = unat (0xFF :: byte)"
      using assms by (simp add: decodeMap_inside)
    with u p show False by simp
  qed
  have "(ucast (of_nat ?p :: byte) :: int64) = of_nat (unat (of_nat ?p :: byte))"
    by simp
  then show "(ucast (decodeMap ! of_char c) :: int64) = word_of_int (int ?p)"
    using assms u by (simp add: decodeMap_inside)
qed

lemma decode54_loop_alphabet:
  "set s \<subseteq> set alphabet \<Longrightarrow>
     decode54_loop s (word_of_int a) =
       Inr (word_of_int (foldl (\<lambda>a c. a * 54 + int (position c alphabet)) a s))"
proof (induction s arbitrary: a)
  case Nil
  then show ?case by simp
next
  case (Cons c s)
  then have c: "c \<in> set alphabet" and s: "set s \<subseteq> set alphabet" by auto
  have "word_of_int a * 54 + ucast (decodeMap ! of_char c)
          = (word_of_int (a * 54 + int (position c alphabet)) :: int64)"
    using byte_of_position(2) [OF c] by simp
  then show ?case
    using byte_of_position(1) [OF c] Cons.IH [OF s, of "a * 54 + int (position c alphabet)"]
    by simp
qed

lemma decode54_loop_invalid:
  "\<not> set s \<subseteq> set alphabet \<Longrightarrow> decode54_loop s a = Inl (Invalid, Some ErrorInvalidByte)"
proof (induction s arbitrary: a)
  case Nil
  then show ?case by simp
next
  case (Cons c s)
  show ?case
  proof (cases "c \<in> set alphabet")
    case True
    with Cons.prems have "\<not> set s \<subseteq> set alphabet" by auto
    then show ?thesis
      using Cons.IH byte_of_position(1) [OF True] by simp
  next
    case False
    then show ?thesis by (simp add: decodeMap_outside)
  qed
qed

lemma decode54_alphabet:
  assumes "set s \<subseteq> set alphabet"
  shows "decode54 s =
     (if (word_of_int (value54 s) :: int64) <s 0 then (Invalid, Some ErrorInvalid)
      else (word_of_int (value54 s), None))"
  using decode54_loop_alphabet [OF assms, of 0] by (simp add: decode54_def value54_def)

section \<open>Numeric value and shortest numeral\<close>

lemma foldl54_shift:
  "foldl (\<lambda>a c. a * 54 + int (position c alphabet)) a s =
     a * 54 ^ length s + foldl (\<lambda>a c. a * 54 + int (position c alphabet)) 0 s"
proof (induction s arbitrary: a)
  case Nil
  then show ?case by simp
next
  case (Cons c s)
  show ?case
    using Cons.IH [of "a * 54 + int (position c alphabet)"] Cons.IH [of "int (position c alphabet)"]
    by (simp add: algebra_simps)
qed

lemma value54_Nil: "value54 [] = 0"
  by (simp add: value54_def)

lemma value54_Cons: "value54 (c # s) = int (position c alphabet) * 54 ^ length s + value54 s"
  using foldl54_shift [of "int (position c alphabet)" s] by (simp add: value54_def)

lemma value54_snoc: "value54 (s @ [c]) = value54 s * 54 + int (position c alphabet)"
  by (simp add: value54_def)

lemma value54_nonneg: "0 \<le> value54 s"
  by (induction s) (simp_all add: value54_Nil value54_Cons)

lemma value54_upper: "set s \<subseteq> set alphabet \<Longrightarrow> value54 s < 54 ^ length s"
proof (induction s)
  case Nil
  then show ?case by (simp add: value54_Nil)
next
  case (Cons c s)
  then have "position c alphabet < 54" "value54 s < 54 ^ length s"
    by (simp_all add: position_alphabet_less)
  then have "int (position c alphabet) * 54 ^ length s + value54 s < 53 * 54 ^ length s + 54 ^ length s"
    by (intro add_le_less_mono mult_right_mono) auto
  then show ?case by (simp add: value54_Cons)
qed

lemma value54_lower:
  assumes "s \<noteq> []" "set s \<subseteq> set alphabet" "hd s \<noteq> alphabet ! 0"
  shows "54 ^ (length s - 1) \<le> value54 s"
proof -
  obtain c t where s: "s = c # t" using assms(1) by (cases s) auto
  with assms have c: "c \<in> set alphabet" "c \<noteq> alphabet ! 0" by auto
  have "position c alphabet \<noteq> 0"
  proof
    assume "position c alphabet = 0"
    with position_nth [OF c(1)] c(2) show False by simp
  qed
  then have "1 * 54 ^ length t \<le> int (position c alphabet) * 54 ^ length t"
    by (intro mult_right_mono) auto
  then have "54 ^ length t \<le> int (position c alphabet) * 54 ^ length t + value54 t"
    using value54_nonneg [of t] by linarith
  then show ?thesis by (simp add: s value54_Cons)
qed

lemma numeral54_alphabet: "set (numeral54 n) \<subseteq> set alphabet"
proof (induction n rule: numeral54.induct)
  case (1 n)
  show ?case
  proof (cases "n < 54")
    case True
    then show ?thesis by (subst numeral54.simps) (simp add: alphabet_length)
  next
    case False
    have "n mod 54 < length alphabet" by (simp add: alphabet_length)
    then have "alphabet ! (n mod 54) \<in> set alphabet" by (rule nth_mem)
    with False 1 show ?thesis by (subst numeral54.simps) simp
  qed
qed

lemma numeral54_not_Nil: "numeral54 n \<noteq> []"
  by (subst numeral54.simps) simp

lemma value54_numeral54: "value54 (numeral54 n) = int n"
proof (induction n rule: numeral54.induct)
  case (1 n)
  show ?case
  proof (cases "n < 54")
    case True
    then have "position (alphabet ! n) alphabet = n"
      by (simp add: position_of_nth alphabet_distinct alphabet_length)
    with True show ?thesis
      by (subst numeral54.simps) (simp add: value54_Cons value54_Nil)
  next
    case False
    have "position (alphabet ! (n mod 54)) alphabet = n mod 54"
      by (simp add: position_of_nth alphabet_distinct alphabet_length)
    moreover have "value54 (numeral54 (n div 54)) = int (n div 54)"
      using False 1 by simp
    ultimately have "value54 (numeral54 (n div 54) @ [alphabet ! (n mod 54)]) = int (n div 54) * 54 + int (n mod 54)"
      by (simp only: value54_snoc)
    also have "\<dots> = int (n div 54 * 54 + n mod 54)"
      by (simp only: of_nat_mult of_nat_add of_nat_numeral)
    also have "\<dots> = int n"
      by simp
    finally show ?thesis
      using False by (subst numeral54.simps) simp
  qed
qed

lemma numeral54_length: "0 < k \<Longrightarrow> n < 54 ^ k \<Longrightarrow> length (numeral54 n) \<le> k"
proof (induction n arbitrary: k rule: numeral54.induct)
  case (1 n)
  show ?case
  proof (cases "n < 54")
    case True
    with 1 show ?thesis by (subst numeral54.simps) simp
  next
    case False
    with "1.prems" have "1 < k"
      by (cases "k = 1") auto
    then obtain j where k: "k = Suc j" "0 < j" by (cases k) auto
    with "1.prems" have "n div 54 < 54 ^ j"
      by (simp add: less_mult_imp_div_less mult.commute)
    with 1 False k have "length (numeral54 (n div 54)) \<le> j" by simp
    with False k show ?thesis by (subst numeral54.simps) simp
  qed
qed

lemma numeral54_hd: "0 < n \<Longrightarrow> hd (numeral54 n) \<noteq> alphabet ! 0"
proof (induction n rule: numeral54.induct)
  case (1 n)
  show ?case
  proof (cases "n < 54")
    case True
    with "1.prems" have "alphabet ! n \<noteq> alphabet ! 0"
      using alphabet_distinct by (simp add: nth_eq_iff_index_eq alphabet_length)
    with True show ?thesis by (subst numeral54.simps) simp
  next
    case False
    then have "0 < n div 54" by (simp add: div_greater_zero_iff)
    with 1 False have "hd (numeral54 (n div 54)) \<noteq> alphabet ! 0" by simp
    with False show ?thesis
      by (subst numeral54.simps) (simp add: numeral54_not_Nil)
  qed
qed

lemma numeral54_canonical: "canonical54 (numeral54 n)"
proof (cases "n < 54")
  case True
  then have "numeral54 n = [alphabet ! n]" by (subst numeral54.simps) simp
  then show ?thesis
    using numeral54_alphabet [of n] by (simp add: canonical54_def)
next
  case False
  then show ?thesis
    using numeral54_alphabet [of n] numeral54_not_Nil [of n] numeral54_hd [of n]
    by (simp add: canonical54_def)
qed

lemma numeral54_value54: "canonical54 s \<Longrightarrow> numeral54 (nat (value54 s)) = s"
proof (induction s rule: rev_induct)
  case Nil
  then show ?case by (simp add: canonical54_def)
next
  case (snoc c t)
  then have c: "c \<in> set alphabet" and t: "set t \<subseteq> set alphabet"
    by (simp_all add: canonical54_def)
  have p: "position c alphabet < 54" using c by (rule position_alphabet_less)
  have pc: "alphabet ! position c alphabet = c" using c by (rule position_nth)
  show ?case
  proof (cases "t = []")
    case True
    then have "nat (value54 (t @ [c])) = position c alphabet"
      by (simp add: value54_Cons value54_Nil)
    with p pc show ?thesis using True by (subst numeral54.simps) simp
  next
    case False
    with snoc.prems have h: "hd t \<noteq> alphabet ! 0" by (simp add: canonical54_def)
    with False t have ct: "canonical54 t" by (simp add: canonical54_def)
    have "54 ^ (length t - 1) \<le> value54 t" using False t h by (rule value54_lower)
    moreover have "(1::int) \<le> 54 ^ (length t - 1)" by simp
    ultimately have v: "1 \<le> value54 t" by linarith
    let ?n = "nat (value54 (t @ [c]))"
    have n: "?n = nat (value54 t) * 54 + position c alphabet"
      using v by (simp add: value54_snoc nat_add_distrib nat_mult_distrib)
    then have "\<not> ?n < 54" "?n div 54 = nat (value54 t)" "?n mod 54 = position c alphabet"
      using v p by auto
    then show ?thesis
      using snoc.IH [OF ct] pc by (subst numeral54.simps) simp
  qed
qed

section \<open>The encoder writes the shortest numeral\<close>

lemma numeral54_step:
  "54 \<le> n \<Longrightarrow> numeral54 n = numeral54 (n div 54) @ [alphabet ! (n mod 54)]"
  by (subst numeral54.simps) simp

lemma numeral54_small: "n < 54 \<Longrightarrow> numeral54 n = [alphabet ! n]"
  by (subst numeral54.simps) simp

lemma drop_store:
  "i < length b \<Longrightarrow> drop i (b[i := c]) = c # drop (Suc i) b"
  by (simp add: Cons_nth_drop_Suc [symmetric])

lemma base54_loop_numeral:
  "0 \<le> sint idv \<Longrightarrow> 0 \<le> i \<Longrightarrow> i < int (length b) \<Longrightarrow>
   int (length (numeral54 (nat (sint idv)))) \<le> i + 1 \<Longrightarrow>
   \<exists>idv' b' i'. base54_loop idv b i = Inr (idv', b', i') \<and>
      0 \<le> sint idv' \<and> sint idv' < 54 \<and> 0 \<le> i' \<and> i' \<le> i \<and> length b' = length b \<and>
      drop (nat i') (b'[nat i' := alphabet ! nat (sint idv')]) =
        numeral54 (nat (sint idv)) @ drop (nat i + 1) b"
proof (induction idv b i rule: base54_loop.induct)
  case (1 idv b i)
  let ?v = "sint idv"
  show ?case
  proof (cases "54 \<le>s idv")
    case False
    then have small: "?v < 54" by (simp add: word_sle_eq)
    then have "numeral54 (nat ?v) = [alphabet ! nat ?v]"
      using "1.prems" by (simp add: numeral54_small)
    moreover have "nat i < length b" using "1.prems" by simp
    ultimately have "drop (nat i) (b[nat i := alphabet ! nat ?v]) =
        numeral54 (nat ?v) @ drop (nat i + 1) b"
      by (simp add: drop_store)
    moreover have "base54_loop idv b i = Inr (idv, b, i)"
      using False by (subst base54_loop.simps) simp
    ultimately show ?thesis using small "1.prems" by simp
  next
    case True
    then have big: "54 \<le> ?v" by (simp add: word_sle_eq)
    have nn: "0 \<le>s idv" using "1.prems" by (simp add: word_sle_eq)
    let ?c = "alphabet ! nat (?v mod 54)"
    let ?b = "b[nat i := ?c]"
    let ?q = "go_div idv 54"
    have q: "sint ?q = ?v div 54" using nn by (rule go_div_54)
    have m: "sint (go_mod idv 54) = ?v mod 54" using nn by (rule go_mod_54)
    have ix: "index_at alphabet (sint (go_mod idv 54)) = Inr ?c"
      by (simp add: index_at_def m alphabet_length)
    have st: "store_at b i ?c = Inr ?b"
      using "1.prems" by (simp add: store_at_def)
    have unfold: "base54_loop idv b i = base54_loop ?q ?b (i - 1)"
      using True ix st by (subst base54_loop.simps) simp
    have nq: "nat (?v div 54) = nat ?v div 54"
      using big by (simp add: nat_div_distrib)
    have nm: "nat (?v mod 54) = nat ?v mod 54"
      using big by (simp add: nat_mod_distrib)
    have num: "numeral54 (nat ?v) = numeral54 (nat ?v div 54) @ [?c]"
      using big by (simp add: numeral54_step nm)
    then have len: "int (length (numeral54 (nat ?v div 54))) \<le> i"
      using "1.prems" by simp
    have "0 < length (numeral54 (nat ?v div 54))"
      using numeral54_not_Nil by simp
    with len have ipos: "1 \<le> i" by linarith
    have "\<exists>idv' b' i'. base54_loop ?q ?b (i - 1) = Inr (idv', b', i') \<and>
      0 \<le> sint idv' \<and> sint idv' < 54 \<and> 0 \<le> i' \<and> i' \<le> i - 1 \<and> length b' = length ?b \<and>
      drop (nat i') (b'[nat i' := alphabet ! nat (sint idv')]) =
        numeral54 (nat (sint ?q)) @ drop (nat (i - 1) + 1) ?b"
    proof (rule "1.IH" [OF True ix st])
      show "0 \<le> sint ?q" using big by (simp add: q pos_imp_zdiv_nonneg_iff)
      show "0 \<le> i - 1" using ipos by simp
      show "i - 1 < int (length ?b)" using "1.prems" by simp
      show "int (length (numeral54 (nat (sint ?q)))) \<le> i - 1 + 1"
        using len by (simp add: q nq)
    qed
    then obtain idv' b' i' where r: "base54_loop ?q ?b (i - 1) = Inr (idv', b', i')"
      "0 \<le> sint idv'" "sint idv' < 54" "0 \<le> i'" "i' \<le> i - 1" "length b' = length ?b"
      "drop (nat i') (b'[nat i' := alphabet ! nat (sint idv')]) =
        numeral54 (nat (sint ?q)) @ drop (nat (i - 1) + 1) ?b"
      by blast
    have "nat (i - 1) + 1 = nat i" using ipos by simp
    moreover have "drop (nat i) ?b = ?c # drop (nat i + 1) b"
      using "1.prems" by (simp add: drop_store)
    ultimately have "drop (nat i') (b'[nat i' := alphabet ! nat (sint idv')]) =
        numeral54 (nat ?v) @ drop (nat i + 1) b"
      using r(7) by (simp add: q nq num)
    with r unfold show ?thesis by simp
  qed
qed

lemma int64_below_54_pow_11: "nat (sint (idv :: int64)) < 54 ^ 11"
proof -
  have "sint idv < 2 ^ 63" using sint_lt [of idv] by simp
  then have "sint idv < 11384956040305711104" by simp
  moreover have "(54::nat) ^ 11 = 11384956040305711104" by simp
  ultimately show ?thesis by linarith
qed

lemma base54_numeral:
  assumes "0 \<le>s idv"
  shows "base54 idv = Inr (numeral54 (nat (sint idv)), None)"
proof (cases "idv <s 54")
  case True
  with assms have v: "0 \<le> sint idv" "sint idv < 54"
    by (simp_all add: word_sle_eq word_sless_alt)
  then have "index_at alphabet (sint idv) = Inr (alphabet ! nat (sint idv))"
    by (simp add: index_at_def alphabet_length)
  moreover have "\<not> idv <s 0" using v by (simp add: word_sless_alt)
  ultimately show ?thesis
    using True v by (simp add: base54_def numeral54_small)
next
  case False
  with assms have v: "0 \<le> sint idv" "54 \<le> sint idv"
    by (simp_all add: word_sle_eq word_sless_alt)
  have neg: "\<not> idv <s 0" using v by (simp add: word_sless_alt)
  let ?b = "replicate 11 (CHR 0x00)"
  have "length (numeral54 (nat (sint idv))) \<le> 11"
    using numeral54_length [of 11 "nat (sint idv)"] int64_below_54_pow_11 [of idv] by simp
  then have "\<exists>idv' b' i'. base54_loop idv ?b 10 = Inr (idv', b', i') \<and>
      0 \<le> sint idv' \<and> sint idv' < 54 \<and> 0 \<le> i' \<and> i' \<le> 10 \<and> length b' = length ?b \<and>
      drop (nat i') (b'[nat i' := alphabet ! nat (sint idv')]) =
        numeral54 (nat (sint idv)) @ drop (nat 10 + 1) ?b"
    using v by (intro base54_loop_numeral) simp_all
  then obtain idv' b' i' where r: "base54_loop idv ?b 10 = Inr (idv', b', i')"
      "0 \<le> sint idv'" "sint idv' < 54" "0 \<le> i'" "i' \<le> 10" "length b' = 11"
      "drop (nat i') (b'[nat i' := alphabet ! nat (sint idv')]) = numeral54 (nat (sint idv))"
    by auto
  have ix: "index_at alphabet (sint idv') = Inr (alphabet ! nat (sint idv'))"
    using r by (simp add: index_at_def alphabet_length)
  have st: "store_at b' i' (alphabet ! nat (sint idv')) = Inr (b'[nat i' := alphabet ! nat (sint idv')])"
    using r by (simp add: store_at_def)
  show ?thesis
    using False neg r ix st by (simp add: base54_def)
qed

lemma sint_of_int64_high:
  assumes "2 ^ 63 \<le> k" "k < 2 ^ 64"
  shows "sint (word_of_int k :: int64) = k - 2 ^ 64"
proof -
  have z: "(2 ^ 64 :: int64) = 0" by simp
  have "(word_of_int (k - 2 ^ 64) :: int64) = word_of_int k - 2 ^ 64"
    by (simp only: of_int_diff of_int_power of_int_numeral)
  then have "(word_of_int k :: int64) = word_of_int (k - 2 ^ 64)"
    by (simp only: z diff_zero)
  then have "sint (word_of_int k :: int64) = sint (word_of_int (k - 2 ^ 64) :: int64)"
    by (rule arg_cong)
  also have "\<dots> = k - 2 ^ 64"
    using assms by (intro sint_of_int64) simp_all
  finally show ?thesis .
qed

lemma decode54_numeral54:
  assumes "0 \<le>s v"
  shows "decode54 (numeral54 (nat (sint v))) = (v, None)"
proof -
  have nn: "0 \<le> sint v" using assms by (simp add: word_sle_eq)
  then have "value54 (numeral54 (nat (sint v))) = sint v"
    by (simp add: value54_numeral54)
  moreover have "\<not> v <s 0" using nn by (simp add: word_sless_alt)
  ultimately show ?thesis
    by (simp add: decode54_alphabet numeral54_alphabet)
qed

lemma uint_nonneg64:
  assumes "0 \<le> sint (w :: int64)"
  shows "uint w = sint w"
proof -
  have "sint w < 2 ^ 63" using sint_lt [of w] by simp
  then have "sint w < 2 ^ 64" by simp
  then have "take_bit 64 (sint w) = sint w"
    using assms by (simp add: take_bit_int_eq_self)
  then show ?thesis by (simp add: uint_sint)
qed

lemma unat_nonneg64: "0 \<le> sint (w :: int64) \<Longrightarrow> unat w = nat (sint w)"
  using uint_nonneg64 [of w] by (simp add: unat_eq_nat_uint)

lemma canonical54_shortest:
  assumes "canonical54 s" "t \<noteq> []" "set t \<subseteq> set alphabet" "value54 t = value54 s"
  shows "length s \<le> length t"
proof (cases "length s = 1")
  case True
  with assms(2) show ?thesis by (cases t) auto
next
  case False
  with assms(1) have "s \<noteq> []" "set s \<subseteq> set alphabet" "hd s \<noteq> alphabet ! 0"
    by (simp_all add: canonical54_def)
  then have "(54::int) ^ (length s - 1) \<le> value54 s" by (rule value54_lower)
  also have "\<dots> < 54 ^ length t" using assms(3,4) value54_upper [of t] by simp
  finally have "length s - 1 < length t" by (simp add: power_strict_increasing_iff)
  then show ?thesis by simp
qed

section \<open>Arithmetic of the bit fields\<close>

lemma fields_int:
  fixes T M S :: int
  assumes "0 \<le> M" "M < 2 ^ 9" "0 \<le> S" "S < 2 ^ 12"
  shows "push_bit 21 T OR push_bit 12 M OR S = T * 2 ^ 21 + M * 2 ^ 12 + S"
proof -
  let ?L = "S + M * 2 ^ 12"
  have S: "take_bit 12 S = S" using assms by (simp add: take_bit_int_eq_self)
  have "push_bit 12 M OR S = concat_bit 12 S M"
    by (simp only: concat_bit_def S or.commute)
  also have "\<dots> = ?L"
    by (simp only: concat_bit_eq S push_bit_eq_mult)
  finally have low: "push_bit 12 M OR S = ?L" .
  have "0 \<le> ?L" "?L < 2 ^ 21" using assms by auto
  then have L: "take_bit 21 ?L = ?L" by (simp only: take_bit_int_eq_self)
  have "push_bit 21 T OR ?L = concat_bit 21 ?L T"
    by (simp only: concat_bit_def L or.commute)
  also have "\<dots> = ?L + T * 2 ^ 21"
    by (simp only: concat_bit_eq L push_bit_eq_mult)
  finally have "push_bit 21 T OR push_bit 12 M OR S = ?L + T * 2 ^ 21"
    by (simp only: low)
  then show ?thesis by simp
qed

lemma snowflake_uint:
  assumes "0 \<le>s t" "t <s 2 ^ 42" "0 \<le>s m" "m <s 2 ^ 9" "0 \<le>s s" "s <s 2 ^ 12"
  shows "uint (snowflake t m s) = sint t * 2 ^ 21 + sint m * 2 ^ 12 + sint s"
proof -
  have t: "0 \<le> sint t" "sint t < 2 ^ 42" and m: "0 \<le> sint m" "sint m < 2 ^ 9"
    and s: "0 \<le> sint s" "sint s < 2 ^ 12"
    using assms by (simp_all add: word_sle_eq word_sless_alt)
  have ut: "uint t = sint t" and um: "uint m = sint m" and us: "uint s = sint s"
    using t m s by (simp_all add: uint_nonneg64)
  have "0 \<le> push_bit 21 (sint t)" "push_bit 21 (sint t) < 2 ^ 64"
    using t by (simp_all add: push_bit_eq_mult)
  then have pt: "take_bit 64 (push_bit 21 (sint t)) = push_bit 21 (sint t)"
    by (simp add: take_bit_int_eq_self)
  have "0 \<le> push_bit 12 (sint m)" "push_bit 12 (sint m) < 2 ^ 64"
    using m by (simp_all add: push_bit_eq_mult)
  then have pm: "take_bit 64 (push_bit 12 (sint m)) = push_bit 12 (sint m)"
    by (simp add: take_bit_int_eq_self)
  have "uint (snowflake t m s) = push_bit 21 (sint t) OR push_bit 12 (sint m) OR sint s"
    by (simp add: snowflake_def bitsMachineID_def bitsMachineSequence_def uint_or
        unsigned_push_bit_eq ut um us pt pm)
  then show ?thesis using m s by (simp add: fields_int)
qed

lemma sint_eq_uint64:
  assumes "uint (w :: int64) < 2 ^ 63"
  shows "sint w = uint w"
proof -
  have "- (2 ^ 63) \<le> (0 :: int)" by simp
  also have "0 \<le> uint w" by simp
  finally have "signed_take_bit 63 (uint w) = uint w"
    using assms by (rule signed_take_bit_int_eq_self)
  then show ?thesis by (simp add: sint_uint)
qed

lemma fields_div_mod:
  fixes T M S :: int
  assumes "0 \<le> M" "M < 2 ^ 9" "0 \<le> S" "S < 2 ^ 12"
  shows "(T * 2 ^ 21 + M * 2 ^ 12 + S) mod 2 ^ 12 = S"
    and "(T * 2 ^ 21 + M * 2 ^ 12 + S) div 2 ^ 12 = T * 2 ^ 9 + M"
    and "(T * 2 ^ 9 + M) mod 2 ^ 9 = M"
    and "(T * 2 ^ 21 + M * 2 ^ 12 + S) div 2 ^ 21 = T"
proof -
  have e: "T * 2 ^ 21 + M * 2 ^ 12 + S = S + (T * 2 ^ 9 + M) * 2 ^ 12" by simp
  show "(T * 2 ^ 21 + M * 2 ^ 12 + S) mod 2 ^ 12 = S"
    using assms(3,4) unfolding e by (simp only: mod_mult_self1 mod_pos_pos_trivial)
  show "(T * 2 ^ 21 + M * 2 ^ 12 + S) div 2 ^ 12 = T * 2 ^ 9 + M"
    using assms(3,4) unfolding e by (simp add: div_pos_pos_trivial)
  have "(T * 2 ^ 9 + M) mod 2 ^ 9 = (M + T * 2 ^ 9) mod 2 ^ 9" by (simp only: add.commute)
  also have "\<dots> = M" using assms(1,2) by (simp only: mod_mult_self1 mod_pos_pos_trivial)
  finally show "(T * 2 ^ 9 + M) mod 2 ^ 9 = M" .
  have l: "0 \<le> M * 2 ^ 12 + S" "M * 2 ^ 12 + S < 2 ^ 21" using assms by auto
  have "T * 2 ^ 21 + M * 2 ^ 12 + S = (M * 2 ^ 12 + S) + T * 2 ^ 21" by simp
  then have "(T * 2 ^ 21 + M * 2 ^ 12 + S) div 2 ^ 21 = ((M * 2 ^ 12 + S) + T * 2 ^ 21) div 2 ^ 21"
    by (simp only:)
  also have "\<dots> = T" using l by (simp add: div_pos_pos_trivial)
  finally show "(T * 2 ^ 21 + M * 2 ^ 12 + S) div 2 ^ 21 = T" .
qed

lemma snowflake_sint:
  assumes "0 \<le>s t" "t <s 2 ^ 42" "0 \<le>s m" "m <s 2 ^ 9" "0 \<le>s s" "s <s 2 ^ 12"
  shows "sint (snowflake t m s) = sint t * 2 ^ 21 + sint m * 2 ^ 12 + sint s"
proof -
  have t: "0 \<le> sint t" "sint t < 2 ^ 42" and m: "0 \<le> sint m" "sint m < 2 ^ 9"
    and s: "0 \<le> sint s" "sint s < 2 ^ 12"
    using assms by (simp_all add: word_sle_eq word_sless_alt)
  have u: "uint (snowflake t m s) = sint t * 2 ^ 21 + sint m * 2 ^ 12 + sint s"
    using assms by (rule snowflake_uint)
  have "sint t * 2 ^ 21 \<le> (2 ^ 42 - 1) * 2 ^ 21" using t by simp
  then have "uint (snowflake t m s) < 2 ^ 63" using m s by (simp add: u)
  then show ?thesis using u by (simp only: sint_eq_uint64)
qed

lemma mask_int_12: "(4095 :: int) = mask 12" and mask_int_9: "(511 :: int) = mask 9"
  by (simp_all add: mask_eq_exp_minus_1)

lemma snowflake_MachineSequence:
  assumes "0 \<le>s t" "t <s 2 ^ 42" "0 \<le>s m" "m <s 2 ^ 9" "0 \<le>s s" "s <s 2 ^ 12"
  shows "MachineSequence (snowflake t m s) = s"
proof -
  have m: "0 \<le> sint m" "sint m < 2 ^ 9" and s: "0 \<le> sint s" "sint s < 2 ^ 12"
    using assms by (simp_all add: word_sle_eq word_sless_alt)
  let ?x = "snowflake t m s"
  have "uint (MachineSequence ?x) = uint ?x AND 4095"
    by (simp add: MachineSequence_def bitMapMachineSequence_def bitsMachineSequence_def uint_and)
  also have "\<dots> = uint ?x mod 2 ^ 12"
    by (simp only: mask_int_12 flip: take_bit_eq_mask take_bit_eq_mod)
  also have "\<dots> = sint s"
    using m s by (simp only: snowflake_uint [OF assms] fields_div_mod)
  also have "\<dots> = uint s" using s by (simp add: uint_nonneg64)
  finally show ?thesis by (simp only: word_uint_eq_iff)
qed

lemma snowflake_MachineId:
  assumes "0 \<le>s t" "t <s 2 ^ 42" "0 \<le>s m" "m <s 2 ^ 9" "0 \<le>s s" "s <s 2 ^ 12"
  shows "MachineId (snowflake t m s) = m"
proof -
  have t: "0 \<le> sint t" "sint t < 2 ^ 42" and m: "0 \<le> sint m" "sint m < 2 ^ 9"
    and s: "0 \<le> sint s" "sint s < 2 ^ 12"
    using assms by (simp_all add: word_sle_eq word_sless_alt)
  let ?x = "snowflake t m s"
  let ?d = "signed_drop_bit 12 ?x"
  have "sint ?d = sint ?x div 2 ^ 12"
    by (simp add: sint_signed_drop_bit_eq drop_bit_eq_div)
  also have "\<dots> = sint t * 2 ^ 9 + sint m"
    using m s by (simp only: snowflake_sint [OF assms] fields_div_mod)
  finally have d: "sint ?d = sint t * 2 ^ 9 + sint m" .
  then have "0 \<le> sint ?d" using t m by simp
  then have ud: "uint ?d = sint t * 2 ^ 9 + sint m" using d by (simp add: uint_nonneg64)
  have "uint (MachineId ?x) = uint ?d AND 511"
    by (simp add: MachineId_def bitMapMachineId_def bitsMachineID_def bitsMachineSequence_def uint_and)
  also have "\<dots> = uint ?d mod 2 ^ 9"
    by (simp only: mask_int_9 flip: take_bit_eq_mask take_bit_eq_mod)
  also have "\<dots> = sint m"
    using m s by (simp only: ud fields_div_mod)
  also have "\<dots> = uint m" using m by (simp add: uint_nonneg64)
  finally show ?thesis by (simp only: word_uint_eq_iff)
qed

lemma snowflake_Time:
  assumes "0 \<le>s t" "t <s 2 ^ 42" "0 \<le>s m" "m <s 2 ^ 9" "0 \<le>s s" "s <s 2 ^ 12"
  shows "Time (snowflake t m s) = t + Epoch"
    and "sint (Time (snowflake t m s)) = sint t + 1577836801000"
proof -
  have t: "0 \<le> sint t" "sint t < 2 ^ 42" and m: "0 \<le> sint m" "sint m < 2 ^ 9"
    and s: "0 \<le> sint s" "sint s < 2 ^ 12"
    using assms by (simp_all add: word_sle_eq word_sless_alt)
  let ?x = "snowflake t m s"
  let ?d = "signed_drop_bit 21 ?x"
  have "sint ?d = sint ?x div 2 ^ 21"
    by (simp add: sint_signed_drop_bit_eq drop_bit_eq_div)
  also have "\<dots> = sint t"
    using m s by (simp only: snowflake_sint [OF assms] fields_div_mod)
  finally have "sint ?d = sint t" .
  then have d: "?d = t" by (simp only: signed_word_eqI)
  then show T: "Time ?x = t + Epoch"
    by (simp add: Time_def bitsMachineID_def bitsMachineSequence_def)
  have "sint (t + Epoch) = sint t + 1577836801000"
  proof -
    have "t + Epoch = word_of_int (sint t + 1577836801000)"
      by (simp add: Epoch_def)
    moreover have "sint (word_of_int (sint t + 1577836801000) :: int64) = sint t + 1577836801000"
      using t by (intro sint_of_int64) simp_all
    ultimately show ?thesis by simp
  qed
  with T show "sint (Time ?x) = sint t + 1577836801000" by simp
qed

lemma alphabet_json_plain: "c \<in> set alphabet \<Longrightarrow> json_plain c"
  by (auto simp add: alphabet_def json_plain_def)

section \<open>Invariants of the generator\<close>

lemma spin_result:
  "spin now prev clock = Inr (now', clock') \<Longrightarrow>
     prev <s now' \<and> (now' = now \<or> now' \<in> set clock) \<and> set clock' \<subseteq> set clock"
proof (induction clock arbitrary: now)
  case Nil
  then show ?case by (auto split: if_splits)
next
  case (Cons t clock)
  show ?case
  proof (cases "now \<le>s prev")
    case True
    with Cons.prems have "spin t prev clock = Inr (now', clock')" by simp
    from Cons.IH [OF this] show ?thesis by auto
  next
    case False
    with Cons.prems show ?thesis by auto
  qed
qed

lemma assemble_result:
  "assemble g now clock = (x, g', clock') \<Longrightarrow>
     x = snowflake now (machineId g) ((machineSequence g + 1) AND 4095) \<and>
     g' = g\<lparr>machineSequence := (machineSequence g + 1) AND 4095, previous := now\<rparr> \<and>
     clock' = clock"
  by (auto simp: assemble_def Let_def bitMapMachineSequence_def bitsMachineSequence_def)

text \<open>What a call of \<open>Generate\<close> that returns has done.\<close>

lemma Generate_result:
  assumes "Generate g clock = Inr (x, g', clock')"
  shows "machineId g' = machineId g"
    and "x = snowflake (previous g') (machineId g') (machineSequence g')"
    and "previous g' \<in> set clock"
    and "set clock' \<subseteq> set clock"
    and "previous g <s previous g' \<and> machineSequence g' = 0 \<or>
         previous g' = previous g \<and> machineSequence g \<noteq> 4095 \<and>
           machineSequence g' = (machineSequence g + 1) AND 4095"
proof -
  obtain now clock1 where c: "clock = now # clock1"
    using assms by (cases clock) (auto simp: Generate_def)
  have m: "bitMapMachineSequence = 4095"
    by (simp add: bitMapMachineSequence_def bitsMachineSequence_def)
  consider (wait) "now = previous g" "machineSequence g = 4095"
    | (fresh) "\<not> (now = previous g \<and> machineSequence g = 4095)" "previous g <s now"
    | (same) "\<not> (now = previous g \<and> machineSequence g = 4095)" "\<not> previous g <s now"
    by blast
  then have "machineId g' = machineId g \<and>
      x = snowflake (previous g') (machineId g') (machineSequence g') \<and>
      previous g' \<in> set clock \<and> set clock' \<subseteq> set clock \<and>
      (previous g <s previous g' \<and> machineSequence g' = 0 \<or>
       previous g' = previous g \<and> machineSequence g \<noteq> 4095 \<and>
         machineSequence g' = (machineSequence g + 1) AND 4095)"
  proof cases
    case wait
    with assms c m obtain now' clock2 where
      s: "spin now (previous g) clock1 = Inr (now', clock2)"
      and a: "assemble g now' clock2 = (x, g', clock')"
      by (auto simp: Generate_def split: sum.splits)
    from spin_result [OF s] wait have n: "previous g <s now'" "now' \<in> set clock1" "set clock2 \<subseteq> set clock1"
      by auto
    from assemble_result [OF a] wait n c show ?thesis by auto
  next
    case fresh
    with assms c m have a: "assemble (g\<lparr>machineSequence := - 1\<rparr>) now clock1 = (x, g', clock')"
      by (auto simp: Generate_def)
    from assemble_result [OF a] fresh c show ?thesis by auto
  next
    case same
    with assms c m have eq: "\<not> now <s previous g" 
      and a: "assemble g now clock1 = (x, g', clock')"
      by (auto simp: Generate_def split: if_splits)
    from same(2) eq have "now = previous g" by auto
    with same(1) have "machineSequence g \<noteq> 4095" by simp
    with assemble_result [OF a] \<open>now = previous g\<close> c show ?thesis by auto
  qed
  then show "machineId g' = machineId g"
    and "x = snowflake (previous g') (machineId g') (machineSequence g')"
    and "previous g' \<in> set clock"
    and "set clock' \<subseteq> set clock"
    and "previous g <s previous g' \<and> machineSequence g' = 0 \<or>
         previous g' = previous g \<and> machineSequence g \<noteq> 4095 \<and>
           machineSequence g' = (machineSequence g + 1) AND 4095"
    by blast+
qed

lemma uint_and_4095: "uint ((w :: int64) AND 4095) = uint w mod 2 ^ 12"
proof -
  have "uint (w AND 4095) = uint w AND 4095" by (simp add: uint_and)
  also have "\<dots> = uint w mod 2 ^ 12"
    by (simp only: mask_int_12 flip: take_bit_eq_mask take_bit_eq_mod)
  finally show ?thesis .
qed

lemma sequence_range: "0 \<le>s (w :: int64) AND 4095 \<and> w AND 4095 <s 4096"
proof -
  have "0 \<le> uint w mod 2 ^ 12" "uint w mod 2 ^ 12 < 2 ^ 12" by simp_all
  then have u: "0 \<le> uint (w AND 4095)" "uint (w AND 4095) < 4096"
    by (simp_all add: uint_and_4095)
  then have "sint (w AND 4095) = uint (w AND 4095)"
    by (intro sint_eq_uint64) simp
  with u show ?thesis by (simp add: word_sle_eq word_sless_alt)
qed


lemma uint_push_bit_6:
  assumes "uint (x :: int64) < 8"
  shows "uint (push_bit 6 x) = push_bit 6 (uint x)"
proof -
  have "0 \<le> push_bit 6 (uint x)" "push_bit 6 (uint x) < 2 ^ 64"
    using assms by (simp_all add: push_bit_eq_mult)
  then have "take_bit 64 (push_bit 6 (uint x)) = push_bit 6 (uint x)"
    by (simp add: take_bit_int_eq_self)
  then show ?thesis by (simp add: unsigned_push_bit_eq)
qed

lemma SetMachineId_range:
  assumes "SetMachineId region index g = Inr g'"
  shows "0 \<le>s machineId g' \<and> machineId g' <s 512 \<and>
         machineSequence g' = machineSequence g \<and> previous g' = previous g"
proof -
  let ?c = "getContinentCode region"
  let ?m = "push_bit 6 (?c AND 7) OR (index AND 63) :: int64"
  have g': "g' = g\<lparr>machineId := ?m\<rparr>"
    using assms by (auto simp: SetMachineId_def Let_def bitsMachineID_def split: if_splits)
  have "uint (?c AND 7) = uint ?c AND mask 3" by (simp add: uint_and mask_eq_exp_minus_1)
  also have "\<dots> = uint ?c mod 2 ^ 3" by (simp only: flip: take_bit_eq_mask take_bit_eq_mod)
  finally have c: "0 \<le> uint (?c AND 7)" "uint (?c AND 7) < 8" by simp_all
  have "uint (index AND 63) = uint index AND mask 6" by (simp add: uint_and mask_eq_exp_minus_1)
  also have "\<dots> = uint index mod 2 ^ 6" by (simp only: flip: take_bit_eq_mask take_bit_eq_mod)
  finally have i: "0 \<le> uint (index AND 63)" "uint (index AND 63) < 2 ^ 9" by simp_all
  have p: "0 \<le> push_bit 6 (uint (?c AND 7))" "push_bit 6 (uint (?c AND 7)) < 2 ^ 9"
    using c by (simp_all add: push_bit_eq_mult)
  have u: "uint ?m = push_bit 6 (uint (?c AND 7)) OR uint (index AND 63)"
    by (simp only: uint_or uint_push_bit_6 [OF c(2)])
  have "push_bit 6 (uint (?c AND 7)) OR uint (index AND 63) < 2 ^ 9"
    using p(1) p(2) i(2) by (rule OR_upper)
  then have lt: "uint ?m < 512" by (simp only: u) simp
  then have "sint ?m = uint ?m" by (intro sint_eq_uint64) simp
  with lt have "0 \<le>s ?m \<and> ?m <s 512" by (simp add: word_sle_eq word_sless_alt)
  with g' show ?thesis by simp
qed

text \<open>
  In every reachable state the machine identifier fits its 9 bits, the sequence
  counter its 12 bits, and the recorded timestamp is not negative.
\<close>

lemma reachable_invariant:
  "reachable g \<Longrightarrow>
     0 \<le>s machineId g \<and> machineId g <s 512 \<and>
     0 \<le>s machineSequence g \<and> machineSequence g <s 4096 \<and> 0 \<le>s previous g"
proof (induction rule: reachable.induct)
  case reachable_initial
  then show ?case by (simp add: initial_def word_sle_eq word_sless_alt)
next
  case (reachable_SetMachineId g region index g')
  with SetMachineId_range [OF reachable_SetMachineId.hyps(2)] show ?case by simp
next
  case (reachable_Generate g clock x g' clock')
  note r = Generate_result [OF reachable_Generate.hyps(2)]
  have z: "0 \<le>s (0 :: int64)" "(0 :: int64) <s 4096" by (simp_all add: word_sle_eq word_sless_alt)
  from r(5) have "0 \<le>s machineSequence g' \<and> machineSequence g' <s 4096"
    using sequence_range [of "machineSequence g + 1"] z by auto
  moreover from r(5) reachable_Generate.IH have "0 \<le>s previous g'"
    by (auto simp: word_sle_eq word_sless_alt)
  ultimately show ?case using r(1) reachable_Generate.IH by simp
qed

lemma Generate_fields:
  assumes "reachable g" "Generate g clock = Inr (x, g', clock')" "previous g' <s 2 ^ 42"
  shows "sint x = sint (previous g') * 2 ^ 21 + sint (machineId g') * 2 ^ 12 + sint (machineSequence g')"
    and "0 \<le> sint (previous g')" and "0 \<le> sint (machineId g')" and "0 \<le> sint (machineSequence g')"
    and "sint (machineSequence g') < 4096"
proof -
  have "reachable g'" using assms(1,2) by (rule reachable_Generate)
  then have i: "0 \<le>s machineId g'" "machineId g' <s 2 ^ 9"
    "0 \<le>s machineSequence g'" "machineSequence g' <s 2 ^ 12" "0 \<le>s previous g'"
    using reachable_invariant [of g'] by simp_all
  have "x = snowflake (previous g') (machineId g') (machineSequence g')"
    using assms(2) by (rule Generate_result(2))
  then show "sint x = sint (previous g') * 2 ^ 21 + sint (machineId g') * 2 ^ 12 + sint (machineSequence g')"
    using snowflake_sint [OF i(5) assms(3) i(1) i(2) i(3) i(4)] by simp
  show "0 \<le> sint (previous g')" "0 \<le> sint (machineId g')" "0 \<le> sint (machineSequence g')"
    "sint (machineSequence g') < 4096"
    using i by (simp_all add: word_sle_eq word_sless_alt)
qed




section \<open>When a call of \<open>Generate\<close> returns\<close>


lemma spin_no_panic: "spin now prev clock \<noteq> Inl (Panic msg)"
  by (induction clock arbitrary: now) auto


lemma Generate_no_panic:
  assumes "clock \<noteq> [] \<longrightarrow> previous g \<le>s hd clock"
  shows "Generate g clock \<noteq> Inl (Panic msg)"
proof (cases clock)
  case Nil
  then show ?thesis by (simp add: Generate_def)
next
  case (Cons now rest)
  with assms have "\<not> now <s previous g" by auto
  with Cons spin_no_panic [of now "previous g" rest msg] show ?thesis
    by (auto simp: Generate_def split: sum.splits)
qed

section \<open>Enough clock readings make the calls return\<close>




section \<open>A state with the sequence counter exhausted\<close>

lemma word_and_4095_small:
  assumes "k < 4096"
  shows "(of_nat k :: int64) AND 4095 = of_nat k"
proof -
  have "uint (of_nat k :: int64) = int k"
    using assms by (simp add: unsigned_of_nat take_bit_nat_eq_self)
  then have "uint ((of_nat k :: int64) AND 4095) = uint (of_nat k :: int64)"
    using assms by (simp add: uint_and_4095)
  then show ?thesis by (simp only: word_uint_eq_iff)
qed

text \<open>
  Calls in one millisecond \<open>T\<close> count the sequence up: every sequence number up to 4095
  is reached with the timestamp \<open>T\<close> recorded.
\<close>

lemma reachable_same_millisecond:
  assumes "reachable \<lparr>machineId = m, machineSequence = 0, previous = 0\<rparr>" "0 <s T"
  shows "k \<le> 4095 \<Longrightarrow> reachable \<lparr>machineId = m, machineSequence = of_nat k, previous = T\<rparr>"
proof (induction k)
  case 0
  have "T \<noteq> 0" using assms(2) by auto
  then have "Generate \<lparr>machineId = m, machineSequence = 0, previous = 0\<rparr> [T] =
      Inr (snowflake T m 0, \<lparr>machineId = m, machineSequence = 0, previous = T\<rparr>, [])"
    using assms(2)
    by (simp add: Generate_def assemble_def bitMapMachineSequence_def bitsMachineSequence_def)
  with assms(1) show ?case by (auto intro: reachable_Generate)
next
  case (Suc k)
  then have r: "reachable \<lparr>machineId = m, machineSequence = of_nat k, previous = T\<rparr>"
    and k: "k < 4095" by simp_all
  have ne: "(of_nat k :: int64) \<noteq> 4095"
  proof
    assume "(of_nat k :: int64) = 4095"
    then have "unat (of_nat k :: int64) = unat (4095 :: int64)" by simp
    with k show False by (simp add: unat_of_nat)
  qed
  have "(of_nat k + 1 :: int64) AND 4095 = of_nat (Suc k)"
    using word_and_4095_small [of "Suc k"] k by (simp add: add.commute)
  then have "Generate \<lparr>machineId = m, machineSequence = of_nat k, previous = T\<rparr> [T] =
      Inr (snowflake T m (of_nat (Suc k)),
           \<lparr>machineId = m, machineSequence = of_nat (Suc k), previous = T\<rparr>, [])"
    using ne
    by (simp add: Generate_def assemble_def bitMapMachineSequence_def bitsMachineSequence_def)
  with r show ?case by (auto intro: reachable_Generate)
qed

text \<open>
  The timestamp that a returning call packs into the ID and records is the reading it
  took on entry, unless it found the sequence exhausted in the recorded millisecond and
  waited: then it is a later reading.
\<close>

lemma Generate_timestamp:
  assumes "Generate g (now # rest) = Inr (x, g', clock')"
  shows "previous g' = now \<or>
         now = previous g \<and> machineSequence g = 4095 \<and> previous g <s previous g'"
proof (cases "now = previous g \<and> machineSequence g = 4095")
  case True
  with Generate_result(5) [OF assms] show ?thesis by auto
next
  case False
  then have "\<not> (now = previous g \<and> machineSequence g = bitMapMachineSequence)"
    by (simp add: bitMapMachineSequence_def bitsMachineSequence_def)
  with assms have "assemble (g\<lparr>machineSequence := - 1\<rparr>) now rest = (x, g', clock') \<or>
      assemble g now rest = (x, g', clock')"
    by (auto simp: Generate_def split: if_splits)
  then have "previous g' = now" using assemble_result by fastforce
  then show ?thesis by simp
qed

section \<open>The claims\<close>

text \<open>
  C1: for every non-negative 64-bit integer \<open>v\<close>, that is every \<open>v\<close> in \<open>[0, 2^63)\<close>,
  \<open>base54\<close> returns a string and no error, and \<open>decode54\<close> of that string returns \<open>v\<close>
  and no error.
\<close>

theorem decode54_base54_roundtrip:
  "0 \<le>s v \<Longrightarrow> \<exists>s. base54 v = Inr (s, None) \<and> decode54 s = (v, None)"
  using base54_numeral [of v] decode54_numeral54 [of v] by simp

theorem decode54_base54_roundtrip_witness:
  "0 \<le>s (123123123 :: int64) \<and> base54 123123123 = Inr (''nHW1a'', None) \<and>
   decode54 ''nHW1a'' = (123123123, None)"
proof -
  have h: "0 \<le>s (123123123 :: int64)" by (simp add: word_sle_eq)
  have e: "base54 123123123 = Inr (''nHW1a'', None)" by code_simp
  from decode54_base54_roundtrip [OF h] obtain s
    where "base54 123123123 = Inr (s, None)" "decode54 s = (123123123, None)" by blast
  with e h show ?thesis by simp
qed




text \<open>
  C3, as stated, fails on a string with a redundant leading zero symbol: \<open>''gg''\<close> has
  two characters of the alphabet and the value 0, it decodes to the ID 0 without error,
  and 0 is encoded as \<open>''g''\<close>.
\<close>

theorem base54_decode54_leading_zero:
  "length ''gg'' \<le> 11 \<and> set ''gg'' \<subseteq> set alphabet \<and> value54 ''gg'' = 0 \<and>
   decode54 ''gg'' = (0, None) \<and> base54 (fst (decode54 ''gg'')) = Inr (''g'', None) \<and>
   base54 (fst (decode54 ''gg'')) \<noteq> Inr (''gg'', None)"
proof -
  have a: "set ''gg'' \<subseteq> set alphabet" by (simp add: alphabet_def)
  have v: "value54 ''gg'' = 0" by (simp add: value54_def alphabet_def)
  have d: "decode54 ''gg'' = (0, None)"
    using a by (simp add: decode54_alphabet v)
  have e: "base54 0 = Inr (''g'', None)"
    by (simp add: base54_def index_at_def alphabet_def word_sless_alt)
  show ?thesis using a v d e by simp
qed

text \<open>
  C3, amended: for every non-empty string \<open>s\<close> over the alphabet that is one character
  long or does not start with the zero symbol, and whose numeric value is below \<open>2^63\<close>,
  \<open>decode54\<close> returns that value without error and \<open>base54\<close> of it returns \<open>s\<close>. Such a
  string has at most 11 characters.
\<close>

theorem base54_decode54_canonical:
  assumes "canonical54 s" "value54 s < 2 ^ 63"
  shows "decode54 s = (word_of_int (value54 s), None) \<and>
         base54 (fst (decode54 s)) = Inr (s, None) \<and> length s \<le> 11"
proof -
  let ?v = "value54 s"
  let ?w = "word_of_int ?v :: int64"
  have alph: "set s \<subseteq> set alphabet" using assms(1) by (simp add: canonical54_def)
  have nn: "0 \<le> ?v" by (rule value54_nonneg)
  then have sv: "sint ?w = ?v" using assms(2) by (intro sint_of_int64) simp_all
  then have pos: "0 \<le>s ?w" "\<not> ?w <s 0" using nn by (simp_all add: word_sle_eq word_sless_alt)
  have d: "decode54 s = (?w, None)"
    using alph pos by (simp add: decode54_alphabet)
  have "base54 ?w = Inr (numeral54 (nat (sint ?w)), None)"
    using pos(1) by (rule base54_numeral)
  then have e: "base54 ?w = Inr (s, None)"
    using assms(1) by (simp add: sv numeral54_value54)
  have "length (numeral54 (nat (sint ?w))) \<le> 11"
    using numeral54_length [of 11 "nat (sint ?w)"] int64_below_54_pow_11 [of ?w] by simp
  then have "length s \<le> 11"
    using assms(1) by (simp add: sv numeral54_value54)
  with d e show ?thesis by simp
qed

theorem base54_decode54_canonical_witness:
  "canonical54 ''EZNmktHEz5H'' \<and> value54 ''EZNmktHEz5H'' < 2 ^ 63 \<and>
   decode54 ''EZNmktHEz5H'' = (9223372036854775807, None) \<and>
   base54 (fst (decode54 ''EZNmktHEz5H'')) = Inr (''EZNmktHEz5H'', None)"
proof -
  have c: "canonical54 ''EZNmktHEz5H''" by (simp add: canonical54_def alphabet_def)
  have v: "value54 ''EZNmktHEz5H'' = 9223372036854775807"
    by (simp add: value54_def alphabet_def)
  then have b: "value54 ''EZNmktHEz5H'' < 2 ^ 63" by simp
  from base54_decode54_canonical [OF c b]
  have d: "decode54 ''EZNmktHEz5H'' = (word_of_int (value54 ''EZNmktHEz5H''), None)"
    and e: "base54 (fst (decode54 ''EZNmktHEz5H'')) = Inr (''EZNmktHEz5H'', None)"
    by blast+
  from d have d': "decode54 ''EZNmktHEz5H'' = (9223372036854775807, None)"
    by (simp add: v)
  from c b d' e show ?thesis by blast
qed

text \<open>
  C4, as stated, fails on strings of twelve characters and more: \<open>''2ggggggggggg''\<close> is
  over the alphabet and has the value \<open>2 * 54^11\<close>, which is above \<open>2^64\<close>; in 64 bits
  the accumulated value wraps to a non-negative number, and \<open>decode54\<close> returns it without
  error.
\<close>

theorem decode54_overflow_unnoticed:
  "set ''2ggggggggggg'' \<subseteq> set alphabet \<and> value54 ''2ggggggggggg'' = 2 * 54 ^ 11 \<and>
   (2 ^ 63 - 1 :: int) < value54 ''2ggggggggggg'' \<and>
   decode54 ''2ggggggggggg'' = (4323168006901870592, None)"
proof -
  have a: "set ''2ggggggggggg'' \<subseteq> set alphabet" by (simp add: alphabet_def)
  have v: "value54 ''2ggggggggggg'' = 22769912080611422208"
    by (simp add: value54_def alphabet_def)
  have n: "\<not> (4323168006901870592 :: int64) <s 0" by (simp add: word_sless_alt)
  have w: "(22769912080611422208 :: int64) = 4323168006901870592" by simp
  have d: "decode54 ''2ggggggggggg'' = (4323168006901870592, None)"
    using a n by (simp add: decode54_alphabet v w)
  show ?thesis using a v d by simp
qed

text \<open>
  C4, amended: for every string over the alphabet whose numeric value exceeds
  \<open>2^63 - 1\<close> and that has at most 11 characters, or more generally whose value is below
  \<open>2^64\<close>, \<open>decode54\<close> fails with \<open>ErrorInvalid\<close> and returns the sentinel \<open>Invalid\<close>,
  which is -1.
\<close>

theorem decode54_overflow_detected:
  assumes "set s \<subseteq> set alphabet" "2 ^ 63 - 1 < value54 s"
    and "length s \<le> 11 \<or> value54 s < 2 ^ 64"
  shows "decode54 s = (Invalid, Some ErrorInvalid) \<and> sint (fst (decode54 s)) = - 1"
proof -
  have "value54 s < 2 ^ 64"
  proof (cases "length s \<le> 11")
    case True
    have "value54 s < 54 ^ length s" using assms(1) by (rule value54_upper)
    also have "(54 :: int) ^ length s \<le> 54 ^ 11"
      using True by (intro power_increasing) simp_all
    also have "(54 :: int) ^ 11 < 2 ^ 64" by simp
    finally show ?thesis .
  next
    case False
    with assms(3) show ?thesis by simp
  qed
  moreover have "2 ^ 63 \<le> value54 s" using assms(2) by simp
  ultimately have "sint (word_of_int (value54 s) :: int64) = value54 s - 2 ^ 64"
    by (intro sint_of_int64_high)
  with \<open>value54 s < 2 ^ 64\<close> have "(word_of_int (value54 s) :: int64) <s 0"
    by (simp add: word_sless_alt)
  then show ?thesis
    using assms(1) by (simp add: decode54_alphabet Invalid_def)
qed

theorem decode54_overflow_detected_witness:
  "set ''xZNmktHEz5H'' \<subseteq> set alphabet \<and> (2 ^ 63 - 1 :: int) < value54 ''xZNmktHEz5H'' \<and>
   length ''xZNmktHEz5H'' \<le> 11 \<and>
   decode54 ''xZNmktHEz5H'' = (Invalid, Some ErrorInvalid)"
proof -
  have a: "set ''xZNmktHEz5H'' \<subseteq> set alphabet" by (simp add: alphabet_def)
  have v: "(2 ^ 63 - 1 :: int) < value54 ''xZNmktHEz5H''"
    by (simp add: value54_def alphabet_def)
  have l: "length ''xZNmktHEz5H'' \<le> 11 \<or> value54 ''xZNmktHEz5H'' < 2 ^ 64" by simp
  show ?thesis
    using a v decode54_overflow_detected [OF a v l] by simp
qed

text \<open>
  C5: decoding a string that contains a byte outside the alphabet fails with the error
  \<open>ErrorInvalidByte\<close> and returns the sentinel \<open>Invalid\<close>, which is -1. The lookup table
  has 256 entries; the entry of every byte outside the alphabet is \<open>0xFF\<close> and the entry
  of every alphabet character is its position.
\<close>

theorem decode54_invalid_byte:
  "length decodeMap = 256 \<and>
   (c \<notin> set alphabet \<longrightarrow> decodeMap ! of_char c = 0xFF) \<and>
   (i < length alphabet \<longrightarrow> decodeMap ! of_char (alphabet ! i) = of_nat i) \<and>
   ((\<exists>c \<in> set s. c \<notin> set alphabet) \<longrightarrow>
      decode54 s = (Invalid, Some ErrorInvalidByte) \<and> sint (fst (decode54 s)) = - 1)"
proof (intro conjI impI)
  show "length decodeMap = 256" by (rule decodeMap_length)
next
  assume "c \<notin> set alphabet"
  then show "decodeMap ! of_char c = 0xFF" by (rule decodeMap_outside)
next
  assume i: "i < length alphabet"
  then have "alphabet ! i \<in> set alphabet" by simp
  then have "decodeMap ! of_char (alphabet ! i) = of_nat (position (alphabet ! i) alphabet)"
    by (rule decodeMap_inside)
  then show "decodeMap ! of_char (alphabet ! i) = of_nat i"
    using i by (simp add: position_of_nth alphabet_distinct)
next
  assume "\<exists>c \<in> set s. c \<notin> set alphabet"
  then have "\<not> set s \<subseteq> set alphabet" by auto
  then have l: "decode54_loop s 0 = Inl (Invalid, Some ErrorInvalidByte)"
    by (rule decode54_loop_invalid)
  then show "decode54 s = (Invalid, Some ErrorInvalidByte)"
    by (simp add: decode54_def)
  then show "sint (fst (decode54 s)) = - 1"
    by (simp add: Invalid_def)
qed

theorem decode54_invalid_byte_witness:
  "CHR '' '' \<notin> set alphabet \<and> decodeMap ! of_char (CHR '' '') = 0xFF \<and>
   (3::nat) < length alphabet \<and> decodeMap ! of_char (alphabet ! 3) = 3 \<and>
   (\<exists>c \<in> set ''6v F''. c \<notin> set alphabet) \<and>
   decode54 ''6v F'' = (Invalid, Some ErrorInvalidByte)"
proof -
  have a: "CHR '' '' \<notin> set alphabet" by (simp add: alphabet_def)
  have b: "(3::nat) < length alphabet" by (simp add: alphabet_def)
  have c: "\<exists>c \<in> set ''6v F''. c \<notin> set alphabet" by (simp add: alphabet_def)
  show ?thesis
    using a b c decode54_invalid_byte [of "CHR '' ''" 3 "''6v F''"] by simp
qed

text \<open>
  C6: for every \<open>id \<ge> 0\<close>, \<open>base54\<close> returns a string \<open>s\<close> over the alphabet and no error;
  the numeric value of \<open>s\<close> is \<open>id\<close> and no non-empty string over the alphabet with that
  value is shorter. When \<open>id < 54\<close>, \<open>s\<close> is the single character at alphabet position
  \<open>id\<close>; otherwise \<open>s\<close> has at most 11 characters and does not start with the zero
  symbol, the first character of the alphabet. For every \<open>id < 0\<close>, of which the
  sentinel \<open>Invalid\<close> is one, \<open>base54\<close> returns the empty string and the error
  \<open>ErrorInvalid\<close>, whose message is "invalid id".
\<close>

theorem base54_shortest_numeral:
  "(0 \<le>s idv \<longrightarrow>
      (\<exists>s. base54 idv = Inr (s, None) \<and> set s \<subseteq> set alphabet \<and> value54 s = sint idv \<and>
         (\<forall>t. t \<noteq> [] \<and> set t \<subseteq> set alphabet \<and> value54 t = sint idv \<longrightarrow> length s \<le> length t) \<and>
         (idv <s 54 \<longrightarrow> s = [alphabet ! unat idv]) \<and>
         (54 \<le>s idv \<longrightarrow> length s \<le> 11 \<and> hd s \<noteq> alphabet ! 0))) \<and>
   (idv <s 0 \<longrightarrow> base54 idv = Inr ([], Some ErrorInvalid) \<and> Message ErrorInvalid = ''invalid id'') \<and>
   Invalid <s 0"
proof (intro conjI impI)
  assume nn: "0 \<le>s idv"
  let ?n = "nat (sint idv)"
  let ?s = "numeral54 ?n"
  have v: "0 \<le> sint idv" using nn by (simp add: word_sle_eq)
  have val: "value54 ?s = sint idv" using v by (simp add: value54_numeral54)
  have short: "\<forall>t. t \<noteq> [] \<and> set t \<subseteq> set alphabet \<and> value54 t = sint idv \<longrightarrow> length ?s \<le> length t"
    using canonical54_shortest [OF numeral54_canonical [of ?n]] val by simp
  have small: "idv <s 54 \<longrightarrow> ?s = [alphabet ! unat idv]"
  proof
    assume "idv <s 54"
    then have "sint idv < 54" by (simp add: word_sless_alt)
    then have "?n < 54" using v by simp
    moreover have "unat idv = ?n" using v by (rule unat_nonneg64)
    ultimately show "?s = [alphabet ! unat idv]" by (simp add: numeral54_small)
  qed
  have big: "54 \<le>s idv \<longrightarrow> length ?s \<le> 11 \<and> hd ?s \<noteq> alphabet ! 0"
  proof
    assume "54 \<le>s idv"
    then have "54 \<le> sint idv" by (simp add: word_sle_eq)
    then have "0 < ?n" by simp
    then have "hd ?s \<noteq> alphabet ! 0" by (rule numeral54_hd)
    moreover have "length ?s \<le> 11"
      using numeral54_length [of 11 ?n] int64_below_54_pow_11 [of idv] by simp
    ultimately show "length ?s \<le> 11 \<and> hd ?s \<noteq> alphabet ! 0" by simp
  qed
  show "\<exists>s. base54 idv = Inr (s, None) \<and> set s \<subseteq> set alphabet \<and> value54 s = sint idv \<and>
         (\<forall>t. t \<noteq> [] \<and> set t \<subseteq> set alphabet \<and> value54 t = sint idv \<longrightarrow> length s \<le> length t) \<and>
         (idv <s 54 \<longrightarrow> s = [alphabet ! unat idv]) \<and>
         (54 \<le>s idv \<longrightarrow> length s \<le> 11 \<and> hd s \<noteq> alphabet ! 0)"
    using base54_numeral [OF nn] numeral54_alphabet [of ?n] val short small big by blast
next
  assume "idv <s 0"
  then show "base54 idv = Inr ([], Some ErrorInvalid)" by (simp add: base54_def)
next
  show "Message ErrorInvalid = ''invalid id''" by (simp add: ErrorInvalid_def)
next
  show "Invalid <s 0" by (simp add: Invalid_def word_sless_alt)
qed

theorem base54_shortest_numeral_witness:
  "0 \<le>s (123123 :: int64) \<and> 54 \<le>s (123123 :: int64) \<and>
   base54 123123 = Inr (''6vF'', None) \<and> set ''6vF'' \<subseteq> set alphabet \<and>
   value54 ''6vF'' = 123123 \<and> length ''6vF'' \<le> 11 \<and> hd ''6vF'' \<noteq> alphabet ! 0 \<and>
   0 \<le>s (3 :: int64) \<and> (3 :: int64) <s 54 \<and> base54 3 = Inr ([alphabet ! 3], None) \<and>
   (- 1 :: int64) <s 0 \<and> base54 (- 1) = Inr ([], Some ErrorInvalid)"
proof -
  have a: "0 \<le>s (123123 :: int64)" "54 \<le>s (123123 :: int64)" "\<not> (123123 :: int64) <s 54"
    by (simp_all add: word_sle_eq word_sless_alt)
  have b: "0 \<le>s (3 :: int64)" "(3 :: int64) <s 54"
    by (simp_all add: word_sle_eq word_sless_alt)
  have c: "(- 1 :: int64) <s 0"
    by (simp add: word_sless_alt)
  have e: "base54 123123 = Inr (''6vF'', None)" by code_simp
  from base54_shortest_numeral [of 123123] a e
  have "set ''6vF'' \<subseteq> set alphabet \<and> value54 ''6vF'' = 123123 \<and>
        length ''6vF'' \<le> 11 \<and> hd ''6vF'' \<noteq> alphabet ! 0"
    by auto
  moreover from base54_shortest_numeral [of 3] b
  have "base54 3 = Inr ([alphabet ! 3], None)" by auto
  moreover from base54_shortest_numeral [of "- 1"] c
  have "base54 (- 1) = Inr ([], Some ErrorInvalid)" by auto
  ultimately show ?thesis using a b c e by simp
qed

text \<open>
  C7: for every timestamp \<open>t\<close> in \<open>[0, 2^42)\<close>, machine identifier \<open>m\<close> in \<open>[0, 512)\<close> and
  sequence number \<open>s\<close> in \<open>[0, 4096)\<close>, the ID \<open>(t << 21) | (m << 12) | s\<close> has
  \<open>MachineId\<close> \<open>m\<close>, \<open>MachineSequence\<close> \<open>s\<close> and \<open>Time\<close> \<open>t + Epoch\<close>, the sum being exact.
  The accessors are functions of the ID alone.
\<close>

theorem accessors_recover_fields:
  assumes "0 \<le>s t" "t <s 2 ^ 42" "0 \<le>s m" "m <s 512" "0 \<le>s s" "s <s 4096"
  shows "snowflake t m s = push_bit 21 t OR push_bit 12 m OR s \<and>
         MachineId (snowflake t m s) = m \<and>
         MachineSequence (snowflake t m s) = s \<and>
         Time (snowflake t m s) = t + Epoch \<and>
         sint (Time (snowflake t m s)) = sint t + sint Epoch"
proof -
  have a: "m <s 2 ^ 9" "s <s 2 ^ 12" using assms by simp_all
  have "snowflake t m s = push_bit 21 t OR push_bit 12 m OR s"
    by (simp add: snowflake_def bitsMachineID_def bitsMachineSequence_def)
  moreover have "MachineId (snowflake t m s) = m"
    using assms(1-3) a(1) assms(5) a(2) by (rule snowflake_MachineId)
  moreover have "MachineSequence (snowflake t m s) = s"
    using assms(1-3) a(1) assms(5) a(2) by (rule snowflake_MachineSequence)
  moreover have "Time (snowflake t m s) = t + Epoch"
    using assms(1-3) a(1) assms(5) a(2) by (rule snowflake_Time(1))
  moreover have "sint (Time (snowflake t m s)) = sint t + 1577836801000"
    using assms(1-3) a(1) assms(5) a(2) by (rule snowflake_Time(2))
  moreover have "sint Epoch = 1577836801000" by (simp add: Epoch_def)
  ultimately show ?thesis by simp
qed

theorem accessors_recover_fields_witness:
  "0 \<le>s (145407 :: int64) \<and> (145407 :: int64) <s 2 ^ 42 \<and>
   0 \<le>s (355 :: int64) \<and> (355 :: int64) <s 512 \<and>
   0 \<le>s (7 :: int64) \<and> (7 :: int64) <s 4096 \<and>
   MachineId (snowflake 145407 355 7) = 355 \<and>
   MachineSequence (snowflake 145407 355 7) = 7 \<and>
   Time (snowflake 145407 355 7) = 145407 + Epoch"
proof -
  have h: "0 \<le>s (145407 :: int64)" "(145407 :: int64) <s 2 ^ 42"
    "0 \<le>s (355 :: int64)" "(355 :: int64) <s 512"
    "0 \<le>s (7 :: int64)" "(7 :: int64) <s 4096"
    by (simp_all add: word_sle_eq word_sless_alt)
  from accessors_recover_fields [OF h] h show ?thesis by blast
qed

text \<open>
  C8, as stated, fails when the call has to wait for the next millisecond and that
  millisecond is \<open>2^42\<close>. After 4096 calls in the millisecond \<open>2^42 - 1\<close> the sequence is
  exhausted; the next call reads \<open>2^42 - 1\<close>, which is in \<open>[0, 2^42)\<close>, waits, reads
  \<open>2^42\<close> and returns a negative ID.
\<close>

theorem Generate_negative_after_wait:
  "reachable \<lparr>machineId = 355, machineSequence = 4095, previous = 4398046511103\<rparr> \<and>
   0 \<le>s (4398046511103 :: int64) \<and> (4398046511103 :: int64) <s 2 ^ 42 \<and>
   Generate \<lparr>machineId = 355, machineSequence = 4095, previous = 4398046511103\<rparr>
       [4398046511103, 4398046511104] =
     Inr (9223372036856229888,
          \<lparr>machineId = 355, machineSequence = 0, previous = 4398046511104\<rparr>, []) \<and>
   (9223372036856229888 :: int64) <s 0"
proof -
  have "SetMachineId ''arn'' 35 initial = Inr \<lparr>machineId = 355, machineSequence = 0, previous = 0\<rparr>"
    by code_simp
  with reachable_initial
  have "reachable \<lparr>machineId = 355, machineSequence = 0, previous = 0\<rparr>"
    by (rule reachable_SetMachineId)
  moreover have p: "0 <s (4398046511103 :: int64)" by (simp add: word_sless_alt)
  ultimately have "reachable \<lparr>machineId = 355, machineSequence = of_nat 4095,
      previous = 4398046511103\<rparr>"
    by (rule reachable_same_millisecond) simp
  then have "reachable \<lparr>machineId = 355, machineSequence = 4095, previous = 4398046511103\<rparr>"
    by simp
  moreover have "Generate \<lparr>machineId = 355, machineSequence = 4095, previous = 4398046511103\<rparr>
       [4398046511103, 4398046511104] =
     Inr (9223372036856229888,
          \<lparr>machineId = 355, machineSequence = 0, previous = 4398046511104\<rparr>, [])"
    by code_simp
  moreover have "0 \<le>s (4398046511103 :: int64)" "(4398046511103 :: int64) <s 2 ^ 42"
    "(9223372036856229888 :: int64) <s 0"
    by (simp_all add: word_sle_eq word_sless_alt)
  ultimately show ?thesis by blast
qed

text \<open>
  C8, amended: every ID that \<open>Generate\<close> returns in a reachable state is not negative,
  and so is not the sentinel \<open>Invalid\<close>, provided the elapsed milliseconds \<open>now\<close> read at
  the time of the call lie in \<open>[0, 2^42)\<close> and, when the call finds the sequence
  exhausted in that millisecond and waits, the later reading with which it leaves the
  wait, recorded in \<open>previous\<close>, is below \<open>2^42\<close> too.
\<close>

theorem Generate_nonnegative:
  assumes "reachable g" "Generate g (now # rest) = Inr (x, g', clock')"
    and "0 \<le>s now" "now <s 2 ^ 42"
    and "now = previous g \<and> machineSequence g = 4095 \<longrightarrow> previous g' <s 2 ^ 42"
  shows "0 \<le>s x \<and> x \<noteq> Invalid"
proof -
  have "previous g' <s 2 ^ 42"
    using Generate_timestamp [OF assms(2)] assms(4,5) by auto
  note f = Generate_fields [OF assms(1,2) this]
  have "0 \<le> sint x" using f by simp
  moreover have "sint Invalid = - 1" by (simp add: Invalid_def)
  ultimately show ?thesis by (auto simp: word_sle_eq)
qed

theorem Generate_nonnegative_witness:
  "reachable \<lparr>machineId = 355, machineSequence = 4095, previous = 5\<rparr> \<and>
   Generate \<lparr>machineId = 355, machineSequence = 4095, previous = 5\<rparr> [5, 5, 6] =
     Inr (14036992, \<lparr>machineId = 355, machineSequence = 0, previous = 6\<rparr>, []) \<and>
   0 \<le>s (5 :: int64) \<and> (5 :: int64) <s 2 ^ 42 \<and> (6 :: int64) <s 2 ^ 42 \<and>
   0 \<le>s (14036992 :: int64) \<and> (14036992 :: int64) \<noteq> Invalid"
proof -
  let ?g = "\<lparr>machineId = 355, machineSequence = 4095, previous = 5\<rparr>"
  let ?g' = "\<lparr>machineId = 355, machineSequence = 0, previous = 6\<rparr>"
  have "SetMachineId ''arn'' 35 initial = Inr \<lparr>machineId = 355, machineSequence = 0, previous = 0\<rparr>"
    by code_simp
  with reachable_initial
  have "reachable \<lparr>machineId = 355, machineSequence = 0, previous = 0\<rparr>"
    by (rule reachable_SetMachineId)
  moreover have "0 <s (5 :: int64)" by (simp add: word_sless_alt)
  ultimately have "reachable \<lparr>machineId = 355, machineSequence = of_nat 4095, previous = 5\<rparr>"
    by (rule reachable_same_millisecond) simp
  then have r: "reachable ?g" by simp
  have e: "Generate ?g [5, 5, 6] = Inr (14036992, ?g', [])" by code_simp
  have a: "0 \<le>s (5 :: int64)" "(5 :: int64) <s 2 ^ 42" "(6 :: int64) <s 2 ^ 42"
    by (simp_all add: word_sle_eq word_sless_alt)
  have w: "5 = previous ?g \<and> machineSequence ?g = 4095 \<longrightarrow> previous ?g' <s 2 ^ 42"
    using a(3) by simp
  from Generate_nonnegative [OF r e a(1) a(2) w] r e a show ?thesis by blast
qed

text \<open>
  C9, as stated, fails on a negative ID: \<open>base54\<close> reports \<open>ErrorInvalid\<close> for the sentinel
  \<open>Invalid\<close>, \<open>String\<close> replaces the failure by the empty string, and \<open>MarshalJSON\<close>
  returns the two quote characters of an empty JSON string with a nil error.
\<close>

theorem MarshalJSON_masks_error:
  "base54 Invalid = Inr ([], Some ErrorInvalid) \<and>
   MarshalJSON (json_quote :: string \<Rightarrow> string \<times> SnowflakeError option) Invalid =
     Inr ([CHR 0x22, CHR 0x22], None)"
proof -
  have "Invalid <s 0" by (simp add: Invalid_def word_sless_alt)
  then have "base54 Invalid = Inr ([], Some ErrorInvalid)" by (simp add: base54_def)
  then show ?thesis by (simp add: MarshalJSON_def String_def json_quote_def)
qed

text \<open>
  C9, amended: with a marshaller that behaves as \<open>json.Marshal\<close> does on strings that
  need no escape, \<open>MarshalJSON\<close> of an ID \<open>id \<ge> 0\<close> returns the base-54 encoding of \<open>id\<close>
  between two double quotes and a nil error. For \<open>id < 0\<close> the failure of the encoder is
  not passed on: \<open>MarshalJSON\<close> returns the empty JSON string and a nil error.
\<close>

theorem MarshalJSON_quotes_encoding:
  assumes "json_Marshal_like marshal"
  shows "(0 \<le>s idv \<longrightarrow>
            (\<exists>s. base54 idv = Inr (s, None) \<and>
                 MarshalJSON marshal idv = Inr ([CHR 0x22] @ s @ [CHR 0x22], None))) \<and>
         (idv <s 0 \<longrightarrow> MarshalJSON marshal idv = Inr ([CHR 0x22, CHR 0x22], None))"
proof (intro conjI impI)
  assume nn: "0 \<le>s idv"
  let ?s = "numeral54 (nat (sint idv))"
  have e: "base54 idv = Inr (?s, None)" using nn by (rule base54_numeral)
  have "list_all json_plain ?s"
    using numeral54_alphabet [of "nat (sint idv)"] alphabet_json_plain
    by (auto simp: list_all_iff)
  then have "marshal ?s = json_quote ?s"
    using assms by (simp add: json_Marshal_like_def)
  then have "MarshalJSON marshal idv = Inr ([CHR 0x22] @ ?s @ [CHR 0x22], None)"
    by (simp add: MarshalJSON_def String_def e json_quote_def)
  with e show "\<exists>s. base54 idv = Inr (s, None) \<and>
      MarshalJSON marshal idv = Inr ([CHR 0x22] @ s @ [CHR 0x22], None)"
    by blast
next
  assume "idv <s 0"
  then have "base54 idv = Inr ([], Some ErrorInvalid)" by (simp add: base54_def)
  moreover have "marshal [] = json_quote []"
    using assms by (simp add: json_Marshal_like_def)
  ultimately show "MarshalJSON marshal idv = Inr ([CHR 0x22, CHR 0x22], None)"
    by (simp add: MarshalJSON_def String_def json_quote_def)
qed

theorem MarshalJSON_quotes_encoding_witness:
  "json_Marshal_like (json_quote :: string \<Rightarrow> string \<times> SnowflakeError option) \<and>
   0 \<le>s (123123 :: int64) \<and>
   MarshalJSON (json_quote :: string \<Rightarrow> string \<times> SnowflakeError option) 123123 =
     Inr ([CHR 0x22] @ ''6vF'' @ [CHR 0x22], None) \<and>
   (- 1 :: int64) <s 0 \<and>
   MarshalJSON (json_quote :: string \<Rightarrow> string \<times> SnowflakeError option) (- 1) =
     Inr ([CHR 0x22, CHR 0x22], None)"
proof -
  let ?q = "json_quote :: string \<Rightarrow> string \<times> SnowflakeError option"
  have j: "json_Marshal_like ?q" by (simp add: json_Marshal_like_def)
  have a: "0 \<le>s (123123 :: int64)" by (simp add: word_sle_eq)
  have b: "(- 1 :: int64) <s 0" by (simp add: word_sless_alt)
  have e: "base54 123123 = Inr (''6vF'', None)" by code_simp
  from MarshalJSON_quotes_encoding [OF j, of 123123] a e
  have "MarshalJSON ?q 123123 = Inr ([CHR 0x22] @ ''6vF'' @ [CHR 0x22], None)" by auto
  moreover from MarshalJSON_quotes_encoding [OF j, of "- 1"] b
  have "MarshalJSON ?q (- 1) = Inr ([CHR 0x22, CHR 0x22], None)" by auto
  ultimately show ?thesis using j a b by blast
qed

text \<open>
  C10: \<open>Parse\<close> and \<open>decode54\<close> check no length. The empty string decodes to the ID 0
  with no error. A string over the alphabet, of whatever length, is accumulated
  character by character: the result is its numeric value reduced to 64 bits, rejected
  only when that 64-bit value is negative.
\<close>

theorem Parse_no_length_check:
  "Parse [] = (0, None) \<and>
   (set s \<subseteq> set alphabet \<longrightarrow>
      Parse s =
        (if (word_of_int (value54 s) :: int64) <s 0 then (Invalid, Some ErrorInvalid)
         else (word_of_int (value54 s), None)))"
proof (intro conjI impI)
  show "Parse [] = (0, None)"
    by (simp add: Parse_def decode54_def)
next
  assume "set s \<subseteq> set alphabet"
  then show "Parse s =
        (if (word_of_int (value54 s) :: int64) <s 0 then (Invalid, Some ErrorInvalid)
         else (word_of_int (value54 s), None))"
    by (simp add: Parse_def decode54_alphabet)
qed

theorem Parse_no_length_check_witness:
  "set ''gEZNmktHEz5H'' \<subseteq> set alphabet \<and> length ''gEZNmktHEz5H'' = 12 \<and>
   Parse ''gEZNmktHEz5H'' = (9223372036854775807, None)"
proof -
  have a: "set ''gEZNmktHEz5H'' \<subseteq> set alphabet" by (simp add: alphabet_def)
  have v: "value54 ''gEZNmktHEz5H'' = 9223372036854775807"
    by (simp add: value54_def alphabet_def)
  have n: "\<not> (9223372036854775807 :: int64) <s 0"
    by (simp add: word_sless_alt)
  show ?thesis
    using a n Parse_no_length_check [of "''gEZNmktHEz5H''"] by (simp add: v)
qed

end
